theory Spec2Isabelle
  imports Complex_Main "HOL-Library.Word"
begin

unbundle bit_operations_syntax

section \<open>Machine integers\<close>

text \<open>
  The program is C for Linux: \<open>int\<close> has 32 bits, \<open>long\<close> has 64 bits,
  \<open>unsigned short\<close> has 16 bits. Signed values are modelled as \<open>int\<close> with the
  two's-complement wrap-around written out at every arithmetic step (\<open>int32\<close>), unsigned
  values as words.
\<close>

type_synonym u8 = "8 word"
type_synonym u16 = "16 word"
type_synonym u32 = "32 word"

definition int32 :: "int \<Rightarrow> int" where
  "int32 x = signed_take_bit 31 x"

definition int64 :: "int \<Rightarrow> int" where
  "int64 x = signed_take_bit 63 x"

text \<open>C's \<open>%\<close> truncates towards zero; HOL's \<open>mod\<close> rounds down.\<close>

definition c_rem :: "int \<Rightarrow> int \<Rightarrow> int" where
  "c_rem x y = x - y * (sgn x * sgn y * (\<bar>x\<bar> div \<bar>y\<bar>))"

section \<open>queue.h, queue.c: the circular packet queue\<close>

text \<open>
  \<open>packet_t\<close>: the field \<open>length\<close> is called \<open>pkt_length\<close> here (\<open>length\<close> is the
  length of a HOL list), \<open>data\<close> is the list of the bytes of \<open>uint8_t data[1500]\<close>.
  The field \<open>ptimein\<close> is left out: no function of the program reads or writes it.
\<close>

record packet =
  pkt_length :: int
  data :: "u8 list"

text \<open>
  A value of type \<open>packet_t *\<close>: the null pointer, the address of a packet, or the
  indeterminate content of memory that \<open>malloc\<close> returned and nobody wrote (\<open>Wild\<close>).
  Packets are never modified after they are filled in, so a pointer is modelled by the
  packet it points to.
\<close>

datatype pkt_ptr = NULL | Wild | Ptr packet

record pktqueue =
  arr :: "pkt_ptr list"
  Qname :: string
  buffer_size :: int
  rear :: int
  front :: int
  fullness :: int
  sfullness :: rat
  bfullness :: int

text \<open>
  \<open>float a = 0.5\<close> and \<open>ewma\<close>. The weight is called \<open>ewma_a\<close> here. The arithmetic
  is exact: the rounding of \<open>float\<close> is not modelled, and nothing below depends on the
  value of \<open>sfullness\<close>.
\<close>

definition ewma_a :: rat where
  "ewma_a = 1 / 2"

definition ewma :: "rat \<Rightarrow> rat \<Rightarrow> int \<Rightarrow> rat" where
  "ewma a ewma_last Qcurrent = (1 - a) * ewma_last + a * of_int Qcurrent"

definition isempty :: "pktqueue \<Rightarrow> int" where
  "isempty p = (if front p = rear p then 1 else 0)"

definition queue_init :: "int \<Rightarrow> string \<Rightarrow> pktqueue" where
  "queue_init queuesize name =
     \<lparr>arr = replicate (nat queuesize) Wild, Qname = name, buffer_size = queuesize,
      rear = 0, front = 0, fullness = 0, sfullness = 0, bfullness = 0\<rparr>"

text \<open>\<open>enqueue_packet\<close> returns the C return value (1 or 0) and the queue.\<close>

definition enqueue_packet :: "pktqueue \<Rightarrow> packet \<Rightarrow> int \<times> pktqueue" where
  "enqueue_packet p pkt =
     (let t = int32 (c_rem (int32 (rear p + 1)) (buffer_size p)) in
      if t = front p then (0, p)
      else (1, p\<lparr>rear := t,
                  arr := (arr p)[nat t := Ptr pkt],
                  fullness := int32 (fullness p + 1),
                  sfullness := ewma ewma_a (sfullness p) (int32 (fullness p + 1)),
                  bfullness := int32 (bfullness p + pkt_length pkt)\<rparr>))"

definition read_packet :: "pktqueue \<Rightarrow> pkt_ptr" where
  "read_packet p = (if isempty p \<noteq> 0 then NULL else arr p ! nat (front p))"

text \<open>
  \<open>dequeue_packet\<close> reads \<open>(p->arr[p->front])->length\<close>: where that slot holds no
  address of a packet the C program has no defined behaviour, and the model returns
  \<open>None\<close>.
\<close>

definition dequeue_packet :: "pktqueue \<Rightarrow> (pkt_ptr \<times> pktqueue) option" where
  "dequeue_packet p =
     (if isempty p \<noteq> 0 then Some (NULL, p)
      else
        let f = int32 (c_rem (int32 (front p + 1)) (buffer_size p)) in
        case arr p ! nat f of
          Ptr pkt \<Rightarrow>
            Some (Ptr pkt,
                  p\<lparr>front := f,
                    fullness := int32 (fullness p - 1),
                    sfullness := ewma ewma_a (sfullness p) (int32 (fullness p - 1)),
                    bfullness := int32 (bfullness p - pkt_length pkt)\<rparr>)
        | _ \<Rightarrow> None)"

subsection \<open>The queued packets, and runs of queue operations\<close>

text \<open>
  The packets in the queue are those in the slots after \<open>front\<close> up to \<open>rear\<close>,
  oldest first: slot \<open>idx q i\<close> holds the \<open>i\<close>-th of them.
\<close>

definition idx :: "pktqueue \<Rightarrow> nat \<Rightarrow> nat" where
  "idx q i = nat ((front q + 1 + int i) mod buffer_size q)"

definition queued :: "pktqueue \<Rightarrow> pkt_ptr list" where
  "queued q = map (\<lambda>i. arr q ! idx q i) [0..<nat ((rear q - front q) mod buffer_size q)]"

fun pkts_of :: "pkt_ptr list \<Rightarrow> packet list" where
  "pkts_of [] = []"
| "pkts_of (Ptr pk # xs) = pk # pkts_of xs"
| "pkts_of (_ # xs) = pkts_of xs"

definition byte_sum :: "packet list \<Rightarrow> int" where
  "byte_sum pks = sum_list (map pkt_length pks)"

definition queue_inv :: "pktqueue \<Rightarrow> bool" where
  "queue_inv q \<longleftrightarrow>
     0 < buffer_size q \<and> buffer_size q < 2 ^ 31 \<and> length (arr q) = nat (buffer_size q) \<and>
     0 \<le> front q \<and> front q < buffer_size q \<and> 0 \<le> rear q \<and> rear q < buffer_size q \<and>
     fullness q = (rear q - front q) mod buffer_size q \<and>
     map Ptr (pkts_of (queued q)) = queued q \<and>
     bfullness q = int32 (byte_sum (pkts_of (queued q)))"

text \<open>
  A caller's sequence of calls on one queue. \<open>run_ops\<close> performs them in order and
  records the packets whose \<open>enqueue_packet\<close> returned 1 (\<open>accepted\<close>) and the packets
  that \<open>dequeue_packet\<close> returned (\<open>returned\<close>).
\<close>

datatype queue_op = Enqueue packet | Dequeue

fun run_ops :: "pktqueue \<Rightarrow> packet list \<Rightarrow> packet list \<Rightarrow> queue_op list
    \<Rightarrow> (pktqueue \<times> packet list \<times> packet list) option" where
  "run_ops q accepted returned [] = Some (q, accepted, returned)"
| "run_ops q accepted returned (Enqueue pkt # ops) =
     (case enqueue_packet q pkt of
        (r, q') \<Rightarrow> run_ops q' (if r = 1 then accepted @ [pkt] else accepted) returned ops)"
| "run_ops q accepted returned (Dequeue # ops) =
     (case dequeue_packet q of
        None \<Rightarrow> None
      | Some (Ptr pk, q') \<Rightarrow> run_ops q' accepted (returned @ [pk]) ops
      | Some (_, q') \<Rightarrow> run_ops q' accepted returned ops)"

text \<open>
  The bounded first-in-first-out queue that the specification describes, on plain lists,
  to compare \<open>run_ops\<close> with: a queue of at most \<open>cap\<close> packets; an enqueue appends
  the packet at the end and is accepted unless the queue holds \<open>cap\<close> packets, in which
  case nothing changes; a dequeue removes and returns the oldest packet, or returns nothing
  from an empty queue. \<open>fifo_spec\<close> yields the final content, the accepted packets and
  the returned packets.
\<close>

fun fifo_spec :: "nat \<Rightarrow> packet list \<Rightarrow> packet list \<Rightarrow> packet list \<Rightarrow> queue_op list
    \<Rightarrow> packet list \<times> packet list \<times> packet list" where
  "fifo_spec cap content accepted returned [] = (content, accepted, returned)"
| "fifo_spec cap content accepted returned (Enqueue pkt # ops) =
     (if length content < cap
      then fifo_spec cap (content @ [pkt]) (accepted @ [pkt]) returned ops
      else fifo_spec cap content accepted returned ops)"
| "fifo_spec cap content accepted returned (Dequeue # ops) =
     (case content of
        [] \<Rightarrow> fifo_spec cap [] accepted returned ops
      | pk # rest \<Rightarrow> fifo_spec cap rest accepted (returned @ [pk]) ops)"

text \<open>Three packets of 100 bytes each, told apart by their content.\<close>

definition pktA :: packet where "pktA = \<lparr>pkt_length = 100, data = replicate 1500 1\<rparr>"
definition pktB :: packet where "pktB = \<lparr>pkt_length = 100, data = replicate 1500 2\<rparr>"
definition pktC :: packet where "pktC = \<lparr>pkt_length = 100, data = replicate 1500 3\<rparr>"

section \<open>process_pkt.h, process_pkt.c: the packet codec\<close>

subsection \<open>Byte order\<close>

text \<open>
  A buffer is the list of its bytes. For a 16-bit field stored at offset \<open>off\<close>,
  \<open>ntohs(field)\<close> is the big-endian reading \<open>be16 buf off\<close> of its two bytes, whatever
  the byte order of the host, and \<open>field = htons(v)\<close> stores the bytes \<open>htons_bytes v\<close>;
  likewise for 32 bits. \<open>csum\<close> reads and its callers store 16-bit words in the
  host's own order; the host is little-endian (\<open>le16\<close>, \<open>le16_bytes\<close>).
\<close>

definition be16 :: "u8 list \<Rightarrow> nat \<Rightarrow> u16" where
  "be16 buf off = push_bit 8 (ucast (buf ! off)) OR ucast (buf ! (off + 1))"

definition be32 :: "u8 list \<Rightarrow> nat \<Rightarrow> u32" where
  "be32 buf off = push_bit 24 (ucast (buf ! off)) OR push_bit 16 (ucast (buf ! (off + 1))) OR
                  push_bit 8 (ucast (buf ! (off + 2))) OR ucast (buf ! (off + 3))"

definition htons_bytes :: "u16 \<Rightarrow> u8 list" where
  "htons_bytes v = [ucast (drop_bit 8 v), ucast v]"

definition htonl_bytes :: "u32 \<Rightarrow> u8 list" where
  "htonl_bytes v = [ucast (drop_bit 24 v), ucast (drop_bit 16 v), ucast (drop_bit 8 v), ucast v]"

definition le16 :: "u8 \<Rightarrow> u8 \<Rightarrow> int" where
  "le16 b0 b1 = uint b0 + 256 * uint b1"

definition le16_bytes :: "u16 \<Rightarrow> u8 list" where
  "le16_bytes v = [ucast v, ucast (drop_bit 8 v)]"

text \<open>
  Writing \<open>bytes\<close> into a buffer at offset \<open>off\<close> (an assignment to a field, or
  \<open>memcpy\<close>). Every use below writes inside the buffer.
\<close>

definition store :: "u8 list \<Rightarrow> nat \<Rightarrow> u8 list \<Rightarrow> u8 list" where
  "store buf off bytes = take off buf @ bytes @ drop (off + length bytes) buf"

subsection \<open>Header layouts\<close>

text \<open>
  Modelled from the spec: the declarations of \<open>struct iphdr\<close> and \<open>struct tcphdr\<close>
  are not in the repository (they come from \<open>netinet/ip.h\<close> and \<open>netinet/tcp.h\<close>).
  The spec names their standard fields; the offsets are those of the IPv4 and TCP
  headers on the wire, which the two structs overlay byte for byte: in the first byte
  of the IPv4 header the low four bits are \<open>ihl\<close>; in the TCP header byte 12 holds
  \<open>doff\<close> in its high four bits and byte 13 holds the flags FIN, SYN, RST, PSH, ACK,
  URG from bit 0 upwards. \<open>struct tshdr\<close> and \<open>struct pseudo_header\<close> are declared in
  \<open>process_pkt.h\<close>; both are 12 bytes without padding.
\<close>

abbreviation (input) sizeof_iphdr :: nat where "sizeof_iphdr \<equiv> 20"
abbreviation (input) sizeof_tcphdr :: nat where "sizeof_tcphdr \<equiv> 20"
abbreviation (input) sizeof_tshdr :: nat where "sizeof_tshdr \<equiv> 12"
abbreviation (input) sizeof_pseudo_header :: nat where "sizeof_pseudo_header \<equiv> 12"

definition ip_ihl :: "u8 list \<Rightarrow> nat" where
  "ip_ihl buf = unat (buf ! 0 AND 0x0F)"

definition ip_tot_len :: "u8 list \<Rightarrow> u16" where
  "ip_tot_len buf = be16 buf 2"

definition ip_id :: "u8 list \<Rightarrow> u16" where
  "ip_id buf = be16 buf 4"

definition ip_protocol :: "u8 list \<Rightarrow> u8" where
  "ip_protocol buf = buf ! 9"

definition ip_check :: "u8 list \<Rightarrow> u8 list" where
  "ip_check buf = take 2 (drop 10 buf)"

definition ip_saddr :: "u8 list \<Rightarrow> u8 list" where
  "ip_saddr buf = take 4 (drop 12 buf)"

definition ip_daddr :: "u8 list \<Rightarrow> u8 list" where
  "ip_daddr buf = take 4 (drop 16 buf)"

text \<open>The TCP fields of the header that starts at offset \<open>off\<close> of the buffer.\<close>

definition tcp_source :: "u8 list \<Rightarrow> nat \<Rightarrow> u16" where
  "tcp_source buf off = be16 buf off"

definition tcp_dest :: "u8 list \<Rightarrow> nat \<Rightarrow> u16" where
  "tcp_dest buf off = be16 buf (off + 2)"

definition tcp_seq :: "u8 list \<Rightarrow> nat \<Rightarrow> u32" where
  "tcp_seq buf off = be32 buf (off + 4)"

definition tcp_ack_seq :: "u8 list \<Rightarrow> nat \<Rightarrow> u32" where
  "tcp_ack_seq buf off = be32 buf (off + 8)"

definition tcp_doff :: "u8 list \<Rightarrow> nat \<Rightarrow> nat" where
  "tcp_doff buf off = unat (drop_bit 4 (buf ! (off + 12)))"

definition tcp_flag :: "u8 list \<Rightarrow> nat \<Rightarrow> nat \<Rightarrow> nat" where
  "tcp_flag buf off n = (if bit (buf ! (off + 13)) n then 1 else 0)"

definition tcp_fin :: "u8 list \<Rightarrow> nat \<Rightarrow> nat" where "tcp_fin buf off = tcp_flag buf off 0"
definition tcp_syn :: "u8 list \<Rightarrow> nat \<Rightarrow> nat" where "tcp_syn buf off = tcp_flag buf off 1"
definition tcp_rst :: "u8 list \<Rightarrow> nat \<Rightarrow> nat" where "tcp_rst buf off = tcp_flag buf off 2"
definition tcp_psh :: "u8 list \<Rightarrow> nat \<Rightarrow> nat" where "tcp_psh buf off = tcp_flag buf off 3"
definition tcp_ack :: "u8 list \<Rightarrow> nat \<Rightarrow> nat" where "tcp_ack buf off = tcp_flag buf off 4"
definition tcp_urg :: "u8 list \<Rightarrow> nat \<Rightarrow> nat" where "tcp_urg buf off = tcp_flag buf off 5"

text \<open>\<open>struct tshdr\<close> at offset \<open>off\<close>: \<open>pad1\<close>, \<open>pad2\<close>, \<open>ok\<close>, \<open>ol\<close>, \<open>sts\<close>, \<open>ets\<close>.\<close>

definition ts_sts :: "u8 list \<Rightarrow> nat \<Rightarrow> u32" where
  "ts_sts buf off = be32 buf (off + 4)"

subsection \<open>The functions of process_pkt.c\<close>

text \<open>
  \<open>payload_size\<close> is an \<open>unsigned int\<close>: the subtraction is done modulo \<open>2 ^ 32\<close>.
\<close>

definition CheckPureTCPAck :: "u8 list \<Rightarrow> int" where
  "CheckPureTCPAck buffer =
     (if ip_protocol buffer = 6 then
        let iphdrlen = ip_ihl buffer * 4 in
        if tcp_ack buffer iphdrlen = 0 then 0
        else if tcp_urg buffer iphdrlen = 1 then 0
        else if tcp_psh buffer iphdrlen = 1 then 0
        else if tcp_rst buffer iphdrlen = 1 then 0
        else if tcp_syn buffer iphdrlen = 1 then 0
        else if tcp_fin buffer iphdrlen = 1 then 0
        else
          let payload_size =
                (uint (ip_tot_len buffer) - int (ip_ihl buffer) * 4
                   - int (tcp_doff buffer iphdrlen) * 4) mod 2 ^ 32
          in if payload_size = 0 then 1 else 0
      else 0)"

text \<open>
  \<open>getACKSeq\<close> and \<open>getTCPSeq\<close> return the 32-bit value of \<open>ntohl\<close> as an \<open>int\<close>.
\<close>

definition getACKSeq :: "u8 list \<Rightarrow> int" where
  "getACKSeq buffer =
     (let iphdrlen = ip_ihl buffer * 4 in
      if tcp_ack buffer iphdrlen = 1 then sint (tcp_ack_seq buffer iphdrlen) else - 1)"

definition getTCPSeq :: "u8 list \<Rightarrow> int" where
  "getTCPSeq buffer = (let iphdrlen = ip_ihl buffer * 4 in sint (tcp_seq buffer iphdrlen))"

definition getTimestampVal :: "u8 list \<Rightarrow> u32" where
  "getTimestampVal buffer =
     (let iphdrlen = ip_ihl buffer * 4 in ts_sts buffer (iphdrlen + sizeof_tcphdr))"

text \<open>
  \<open>csum\<close>. \<open>csum_sum\<close> is the \<open>while\<close> loop together with the odd last byte, run
  over exactly the bytes it is given: it adds the 16-bit words in host order. The
  accumulator \<open>sum\<close> is a \<open>long\<close> of 64 bits and never overflows (fewer than
  \<open>2 ^ 31\<close> bytes are added). \<open>csum ptr nbytes\<close> is \<open>None\<close> where the loop would
  read past the end of the buffer.
\<close>

fun csum_sum :: "u8 list \<Rightarrow> int" where
  "csum_sum (b0 # b1 # ptr) = le16 b0 b1 + csum_sum ptr"
| "csum_sum [b0] = uint b0"
| "csum_sum [] = 0"

definition csum_fold :: "int \<Rightarrow> u16" where
  "csum_fold sum0 =
     (let sum1 = drop_bit 16 sum0 + (sum0 AND 0xffff);
          sum2 = sum1 + drop_bit 16 sum1
      in word_of_int (NOT sum2))"

definition csum :: "u8 list \<Rightarrow> int \<Rightarrow> u16 option" where
  "csum ptr nbytes =
     (if int (length ptr) < nbytes then None
      else Some (csum_fold (csum_sum (take (nat nbytes) ptr))))"

text \<open>
  \<open>create_dupack\<close>. The result is the freshly allocated buffer \<open>dpkt\<close> of
  \<open>psize\<close> bytes; \<open>None\<close> where the function would read past the end of \<open>pkt\<close>.
  The statements are in the order of the source. The parameter \<open>plus\<close> is called
  \<open>plus'\<close> here.
\<close>

definition create_dupack :: "u8 list \<Rightarrow> int \<Rightarrow> u32 \<Rightarrow> u8 list option" where
  "create_dupack pkt plus' timestamp =
     (let psize = sizeof_iphdr + sizeof_tcphdr + sizeof_tshdr in
      if length pkt < psize then None
      else
        let ip = take sizeof_iphdr pkt;
            tcp = take sizeof_tcphdr (drop sizeof_iphdr pkt);
            ts = take sizeof_tshdr (drop (sizeof_iphdr + sizeof_tcphdr) pkt);
            dpkt0 = replicate psize 0;
            dpkt1 = store dpkt0 0 ip;
            dpkt2 = store dpkt1 4 (htons_bytes (word_of_int (int32 (uint (ip_id ip) + plus'))));
            dpkt3 = store dpkt2 10 [0, 0]
        in (case csum dpkt3 (int psize) of
              None \<Rightarrow> None
            | Some ipcheck \<Rightarrow>
               (let dpkt4 = store dpkt3 10 (le16_bytes ipcheck);
                    dpkt5 = store dpkt4 sizeof_iphdr tcp;
                    dpkt6 = store dpkt5 (sizeof_iphdr + sizeof_tcphdr) ts;
                    psh = ip_saddr dpkt6 @ ip_daddr dpkt6 @ [0] @ [6]
                            @ htons_bytes (of_nat (sizeof_tcphdr + sizeof_tshdr));
                    dpkt7 = store dpkt6 (sizeof_iphdr + 16) [0, 0];
                    dpkt8 = store dpkt7 (sizeof_iphdr + sizeof_tcphdr + 4) (htonl_bytes timestamp);
                    pseudosize = sizeof_pseudo_header + sizeof_tcphdr + sizeof_tshdr;
                    pseudogram = psh @ take sizeof_tcphdr (drop sizeof_iphdr dpkt8)
                                   @ take sizeof_tshdr (drop (sizeof_iphdr + sizeof_tcphdr) dpkt8)
                in (case csum pseudogram (int pseudosize) of
                      None \<Rightarrow> None
                    | Some tcpcheck \<Rightarrow>
                        Some (store dpkt8 (sizeof_iphdr + 16) (le16_bytes tcpcheck))))))"

subsection \<open>Auxiliary notions and example packets\<close>

text \<open>The 16-bit one's-complement value that the two folding steps of \<open>csum\<close> leave.\<close>

definition reduce16 :: "int \<Rightarrow> int" where
  "reduce16 s = (let s1 = s div 65536 + s mod 65536 in (s1 + s1 div 65536) mod 65536)"

text \<open>
  A pure ACK of 40 bytes from 10.0.0.2 port 8080 to 10.0.0.1 port 50000: IHL 5, total
  length 40, data offset 5, only the ACK flag set, sequence number \<open>0x2000\<close> and ACK
  number \<open>0x0F00\<close>. The bytes after the 40th stand for the rest of the 1500-byte array.
\<close>

definition ack40 :: "u8 list" where
  "ack40 =
     [0x45, 0x00, 0x00, 0x28,  0x12, 0x34, 0x40, 0x00,  0x40, 0x06, 0x00, 0x00,
      0x0A, 0x00, 0x00, 0x02,  0x0A, 0x00, 0x00, 0x01,
      0x1F, 0x90, 0xC3, 0x50,  0x00, 0x00, 0x20, 0x00,  0x00, 0x00, 0x0F, 0x00,
      0x50, 0x10, 0x00, 0xE5,  0x00, 0x00, 0x00, 0x00]
     @ replicate 1460 0"

section \<open>simpletun_advanced.c: the scheduler and the event loop\<close>

subsection \<open>The timeout decision of io_timeout\<close>

text \<open>\<open>struct timeval\<close>: both fields are \<open>long\<close>.\<close>

record timeval =
  tv_sec :: int
  tv_usec :: int

text \<open>
  The part of \<open>io_timeout\<close> between \<open>gettimeofday\<close> and the first \<open>select\<close>. The
  locals \<open>use_null_timeout\<close> and \<open>which\<close> are not initialised: \<open>None\<close> is their
  indeterminate value. \<open>timeout\<close> is a global and keeps its earlier value
  (\<open>timeout0\<close>) where no branch assigns it. \<open>start_tv\<close> is what \<open>gettimeofday\<close>
  returned.
\<close>

record io_vars =
  use_null_timeout :: "int option"
  timeout :: timeval
  which :: "int option"

definition remain_usec :: "timeval \<Rightarrow> timeval \<Rightarrow> int" where
  "remain_usec next_pkt_out start_tv =
     int64 (int64 (int64 (tv_sec next_pkt_out - tv_sec start_tv) * 1000000)
            + int64 (tv_usec next_pkt_out - tv_usec start_tv))"

definition io_timeout_decide :: "timeval \<Rightarrow> timeval \<Rightarrow> timeval \<Rightarrow> timeval \<Rightarrow> io_vars" where
  "io_timeout_decide qtap_next_pkt_out qsock_next_pkt_out start_tv timeout0 =
     (let remain_usec_1 = remain_usec qtap_next_pkt_out start_tv;
          remain_usec_2 = remain_usec qsock_next_pkt_out start_tv;
          remain_usec_1 = (if remain_usec_1 < 0 then 0 else remain_usec_1);
          remain_usec_2 = (if remain_usec_2 < 0 then 0 else remain_usec_2);
          v0 = \<lparr>use_null_timeout = None, timeout = timeout0, which = None\<rparr>;
          v1 = (if tv_sec qtap_next_pkt_out = - 1 \<and> tv_sec qsock_next_pkt_out = - 1
                then v0\<lparr>use_null_timeout := Some 1\<rparr> else v0);
          v2 = (if tv_sec qtap_next_pkt_out = - 1 \<and> tv_sec qsock_next_pkt_out \<ge> 0
                then v1\<lparr>use_null_timeout := Some 0,
                        timeout := \<lparr>tv_sec = 0, tv_usec = remain_usec_2\<rparr>,
                        which := Some 2\<rparr>
                else v1);
          v3 = (if tv_sec qsock_next_pkt_out = - 1 \<and> tv_sec qtap_next_pkt_out \<ge> 0
                then v2\<lparr>use_null_timeout := Some 0,
                        timeout := \<lparr>tv_sec = 0, tv_usec = remain_usec_1\<rparr>,
                        which := Some 1\<rparr>
                else v2)
      in if tv_sec qtap_next_pkt_out \<ge> 0 \<and> tv_sec qsock_next_pkt_out \<ge> 0
         then (if remain_usec_1 < remain_usec_2
               then v3\<lparr>use_null_timeout := Some 0,
                       timeout := \<lparr>tv_sec = 0, tv_usec = remain_usec_1\<rparr>,
                       which := Some 1\<rparr>
               else v3\<lparr>use_null_timeout := Some 0,
                       timeout := \<lparr>tv_sec = 0, tv_usec = remain_usec_2\<rparr>,
                       which := Some 2\<rparr>)
         else v3)"

text \<open>
  The last argument of the first \<open>select\<close>: \<open>NULL\<close> (wait without a time limit)
  if \<open>use_null_timeout\<close> is not 0, else \<open>&timeout\<close>. It is \<open>None\<close> where the
  program tests the uninitialised \<open>use_null_timeout\<close>.
\<close>

datatype select_timeout = Null_timeout | Timeout timeval

definition select_arg :: "io_vars \<Rightarrow> select_timeout option" where
  "select_arg v =
     (case use_null_timeout v of
        None \<Rightarrow> None
      | Some u \<Rightarrow> Some (if u \<noteq> 0 then Null_timeout else Timeout (timeout v)))"

subsection \<open>The state of the loop in main\<close>

text \<open>
  What the loop does to the outside: a call \<open>cwrite(fd, buf, n)\<close>, with the buffer
  that \<open>buf\<close> points to and the count \<open>n\<close>, or \<open>free\<close> of a packet. A write is
  taken to succeed (\<open>cwrite\<close> leaves the program otherwise).
\<close>

datatype fd = tap_fd | net_fd

datatype effect = Cwrite fd "u8 list" int | Free packet

text \<open>
  The variables of \<open>main\<close> that live across iterations, and the two deadlines (globals).
  The counters \<open>tap2net\<close> and \<open>net2tap\<close> only feed debug output and are left out.
\<close>

record tun_state =
  Qsock :: pktqueue
  Qtap :: pktqueue
  qtap_next_pkt_out :: timeval
  qsock_next_pkt_out :: timeval
  trigger_seq :: u32
  dupack :: pkt_ptr
  in_backward_cc :: int
  pkt_count :: u16

definition main_init :: tun_state where
  "main_init =
     \<lparr>Qsock = queue_init 100 ''Qsock'', Qtap = queue_init 100 ''Qtap'',
      qtap_next_pkt_out = \<lparr>tv_sec = - 1, tv_usec = 0\<rparr>,
      qsock_next_pkt_out = \<lparr>tv_sec = - 1, tv_usec = 0\<rparr>,
      trigger_seq = - 1, dupack = Wild, in_backward_cc = - 1, pkt_count = 0\<rparr>"

subsection \<open>The four branches of the loop body\<close>

text \<open>
  \<open>j & FDTAP_IN_RDY\<close>. The argument \<open>packet\<close> is the packet as \<open>cread\<close> filled it
  and with \<open>length\<close> set to the count read. The comparison of the \<open>int\<close> that
  \<open>getTCPSeq\<close> returns with the \<open>unsigned int trigger_seq\<close> converts the \<open>int\<close> to
  32 bits unsigned. Where the packet was freed, the later \<open>getTCPSeq(packet->data)\<close>
  is taken to read the bytes the packet held.
\<close>

definition on_FDTAP_IN_RDY :: "tun_state \<Rightarrow> packet \<Rightarrow> tun_state \<times> effect list" where
  "on_FDTAP_IN_RDY st packet =
     (let st1 = (if in_backward_cc st = - 3 then st\<lparr>pkt_count := pkt_count st + 1\<rparr> else st);
          (st2, eff) =
            (if word_of_int (getTCPSeq (data packet)) = trigger_seq st1
             then (st1, [Free packet])
             else (case enqueue_packet (Qtap st1) packet of
                     (r, q) \<Rightarrow> if r = 0 then (st1\<lparr>Qtap := q\<rparr>, [Free packet])
                               else (st1\<lparr>Qtap := q\<rparr>, [])))
      in if fullness (Qtap st2) > 20 \<and> in_backward_cc st2 = - 1
         then (st2\<lparr>trigger_seq := word_of_int (getTCPSeq (data packet)),
                   in_backward_cc := - 2\<rparr>, eff)
         else (st2, eff))"

text \<open>\<open>j & FDSOCK_IN_RDY\<close>, with the packet as \<open>read_n\<close> filled it.\<close>

definition on_FDSOCK_IN_RDY :: "tun_state \<Rightarrow> packet \<Rightarrow> tun_state \<times> effect list" where
  "on_FDSOCK_IN_RDY st packet =
     (case enqueue_packet (Qsock st) packet of
        (r, q) \<Rightarrow> if r = 0 then (st\<lparr>Qsock := q\<rparr>, [Free packet]) else (st\<lparr>Qsock := q\<rparr>, []))"

text \<open>
  The second argument of the call of \<open>create_dupack\<close> in the \<open>for\<close> loop,
  \<open>(in_backward_cc*pkt_count)-pkt_count+i+1\<close>: \<open>pkt_count\<close> is promoted to \<open>int\<close> and
  every operation is a 32-bit \<open>int\<close> operation.
\<close>

definition dupack_plus :: "int \<Rightarrow> u16 \<Rightarrow> int \<Rightarrow> int" where
  "dupack_plus in_backward_cc' pkt_count' i =
     int32 (int32 (int32 (int32 (in_backward_cc' * uint pkt_count') - uint pkt_count') + i) + 1)"

text \<open>
  The \<open>for\<close> loop that writes the duplicate ACKs; \<open>i\<close> stays below \<open>pkt_count\<close>, so
  \<open>i++\<close> does not overflow. The result is \<open>None\<close> where \<open>create_dupack\<close> is.
\<close>

function dupack_burst :: "packet \<Rightarrow> packet \<Rightarrow> int \<Rightarrow> u16 \<Rightarrow> int \<Rightarrow> effect list option" where
  "dupack_burst dupack' packet in_backward_cc' pkt_count' i =
     (if i < uint pkt_count' then
        (case create_dupack (data dupack') (dupack_plus in_backward_cc' pkt_count' i)
                (getTimestampVal (data packet)) of
           None \<Rightarrow> None
         | Some ptr \<Rightarrow>
             (case dupack_burst dupack' packet in_backward_cc' pkt_count' (i + 1) of
                None \<Rightarrow> None
              | Some ws \<Rightarrow> Some (Cwrite tap_fd ptr (pkt_length dupack') # ws)))
      else Some [])"
  by pat_completeness auto
termination
  by (relation "measure (\<lambda>(d, p, c, n, i). nat (uint n - i))") auto

declare dupack_burst.simps [simp del]

text \<open>
  \<open>j & FDTAP_OUT_OK\<close>. The result is \<open>None\<close> where the program dereferences a
  pointer that holds no address of a packet (\<open>dupack\<close> is read in both branches that
  follow the template capture, also by the arguments of \<open>do_debug\<close>). After
  \<open>free(dupack)\<close> the variable \<open>dupack\<close> keeps its value.
\<close>

definition on_FDTAP_OUT_OK :: "tun_state \<Rightarrow> (tun_state \<times> effect list) option" where
  "on_FDTAP_OUT_OK st0 =
     (let st = (if in_backward_cc st0 = - 3 then st0\<lparr>in_backward_cc := 0\<rparr> else st0) in
      if in_backward_cc st > - 1 then
        (case dequeue_packet (Qsock st) of
           None \<Rightarrow> None
         | Some (NULL, q) \<Rightarrow>
             Some (st\<lparr>Qsock := q, qsock_next_pkt_out := (qsock_next_pkt_out st)\<lparr>tv_sec := - 1\<rparr>\<rparr>, [])
         | Some (Wild, q) \<Rightarrow> None
         | Some (Ptr packet, q) \<Rightarrow>
             (if in_backward_cc st = 0 then
                (if CheckPureTCPAck (data packet) = 1 then
                   Some (st\<lparr>Qsock := q, dupack := Ptr packet,
                            in_backward_cc := int32 (in_backward_cc st + 1)\<rparr>,
                         [Cwrite tap_fd (data packet) (pkt_length packet)])
                 else Some (st\<lparr>Qsock := q\<rparr>, []))
              else
                (case dupack st of
                   Ptr d \<Rightarrow>
                     (if trigger_seq st \<le> word_of_int (getACKSeq (data packet))
                         \<and> trigger_seq st \<noteq> - 1 then
                        Some (st\<lparr>Qsock := q, trigger_seq := - 1, in_backward_cc := - 1,
                                 pkt_count := 0\<rparr>,
                              [Cwrite tap_fd (data packet) (pkt_length packet), Free d])
                      else
                        (case dupack_burst d packet (in_backward_cc st) (pkt_count st) 0 of
                           None \<Rightarrow> None
                         | Some ws \<Rightarrow>
                             Some (st\<lparr>Qsock := q,
                                      in_backward_cc := int32 (in_backward_cc st + 1)\<rparr>, ws)))
                 | _ \<Rightarrow> None)))
      else
        (case dequeue_packet (Qsock st) of
           None \<Rightarrow> None
         | Some (NULL, q) \<Rightarrow>
             Some (st\<lparr>Qsock := q, qsock_next_pkt_out := (qsock_next_pkt_out st)\<lparr>tv_sec := - 1\<rparr>\<rparr>, [])
         | Some (Wild, q) \<Rightarrow> None
         | Some (Ptr packet, q) \<Rightarrow>
             (let st' = (if in_backward_cc st = - 2
                         then st\<lparr>Qsock := q, in_backward_cc := - 3\<rparr> else st\<lparr>Qsock := q\<rparr>)
              in Some (st', Cwrite tap_fd (data packet) (pkt_length packet)
                            # (if in_backward_cc st' = - 1 then [Free packet] else [])))))"

text \<open>\<open>j & FDSOCK_OUT_OK\<close>: \<open>plength\<close> is a \<open>uint16_t\<close>, sent in network order.\<close>

definition on_FDSOCK_OUT_OK :: "tun_state \<Rightarrow> (tun_state \<times> effect list) option" where
  "on_FDSOCK_OUT_OK st =
     (case dequeue_packet (Qtap st) of
        None \<Rightarrow> None
      | Some (NULL, q) \<Rightarrow>
          Some (st\<lparr>Qtap := q, qtap_next_pkt_out := (qtap_next_pkt_out st)\<lparr>tv_sec := - 1\<rparr>\<rparr>, [])
      | Some (Wild, q) \<Rightarrow> None
      | Some (Ptr packet, q) \<Rightarrow>
          Some (st\<lparr>Qtap := q\<rparr>,
                [Cwrite net_fd (htons_bytes (word_of_int (pkt_length packet))) 2,
                 Cwrite net_fd (data packet) (pkt_length packet),
                 Free packet]))"

section \<open>Notions used to state and prove the properties\<close>

subsection \<open>What a receiver checks\<close>

text \<open>
  The Internet checksum as the receiver of a packet verifies it, stated without
  \<open>csum\<close>: the bytes are read as 16-bit words in network byte order (a last odd byte
  is the high byte of a word), and the words are added. The checksum is right if the
  one's-complement sum of the words, which is their sum with the carries out of 16 bits
  added back in, is \<open>0xFFFF\<close>; that is, if the sum of the words is a multiple of 65535
  and is not 0.
\<close>

fun net_word_sum :: "u8 list \<Rightarrow> int" where
  "net_word_sum (b0 # b1 # bs) = 256 * uint b0 + uint b1 + net_word_sum bs"
| "net_word_sum [b0] = 256 * uint b0"
| "net_word_sum [] = 0"

definition ones_complement_valid :: "u8 list \<Rightarrow> bool" where
  "ones_complement_valid bs \<longleftrightarrow> net_word_sum bs \<noteq> 0 \<and> net_word_sum bs mod 65535 = 0"

text \<open>
  The IPv4 header checksum covers the \<open>ihl * 4\<close> header bytes. The TCP checksum
  covers the pseudo-header (source and destination address, a zero byte, the protocol,
  the length of the TCP segment) followed by the TCP segment; the segment is what the
  total length of the IPv4 header leaves after the IPv4 header.
\<close>

definition ip_checksum_ok :: "u8 list \<Rightarrow> bool" where
  "ip_checksum_ok p \<longleftrightarrow>
     ip_ihl p * 4 \<le> length p \<and> ones_complement_valid (take (ip_ihl p * 4) p)"

definition tcp_segment_len :: "u8 list \<Rightarrow> nat" where
  "tcp_segment_len p = unat (ip_tot_len p) - ip_ihl p * 4"

definition tcp_pseudogram :: "u8 list \<Rightarrow> u8 list" where
  "tcp_pseudogram p =
     ip_saddr p @ ip_daddr p @ [0, ip_protocol p] @ htons_bytes (of_nat (tcp_segment_len p))
       @ take (tcp_segment_len p) (drop (ip_ihl p * 4) p)"

definition tcp_checksum_ok :: "u8 list \<Rightarrow> bool" where
  "tcp_checksum_ok p \<longleftrightarrow>
     unat (ip_tot_len p) \<le> length p \<and> ip_ihl p * 4 \<le> unat (ip_tot_len p) \<and>
     ones_complement_valid (tcp_pseudogram p)"

subsection \<open>The parts of the packet that create_dupack builds\<close>

text \<open>
  The IPv4 header with \<open>check\<close> still zero (\<open>dupack_ipz\<close>) and final (\<open>dupack_ip\<close>),
  the pseudo-header, the TCP header with \<open>check\<close> zero and final, the Timestamp option,
  and the whole packet (\<open>dupack_out\<close>).
\<close>

definition dupack_ipz :: "u8 list \<Rightarrow> int \<Rightarrow> u8 list" where
  "dupack_ipz pkt plus' =
     store (store (take 20 pkt) 4 (htons_bytes (word_of_int (int32 (uint (ip_id (take 20 pkt)) + plus'))))) 10 [0, 0]"

definition dupack_ip :: "u8 list \<Rightarrow> int \<Rightarrow> u8 list" where
  "dupack_ip pkt plus' =
     store (dupack_ipz pkt plus') 10
       (le16_bytes (csum_fold (csum_sum (dupack_ipz pkt plus' @ replicate 32 0))))"

definition dupack_psh :: "u8 list \<Rightarrow> u8 list" where
  "dupack_psh pkt = take 4 (drop 12 pkt) @ take 4 (drop 16 pkt) @ [0] @ [6] @ htons_bytes 32"

definition dupack_tcpz :: "u8 list \<Rightarrow> u8 list" where
  "dupack_tcpz pkt = store (take 20 (drop 20 pkt)) 16 [0, 0]"

definition dupack_ts :: "u8 list \<Rightarrow> u32 \<Rightarrow> u8 list" where
  "dupack_ts pkt timestamp = store (take 12 (drop 40 pkt)) 4 (htonl_bytes timestamp)"

definition dupack_pseudogram :: "u8 list \<Rightarrow> u32 \<Rightarrow> u8 list" where
  "dupack_pseudogram pkt timestamp = dupack_psh pkt @ dupack_tcpz pkt @ dupack_ts pkt timestamp"

definition dupack_tcp :: "u8 list \<Rightarrow> u32 \<Rightarrow> u8 list" where
  "dupack_tcp pkt timestamp =
     store (dupack_tcpz pkt) 16 (le16_bytes (csum_fold (csum_sum (dupack_pseudogram pkt timestamp))))"

definition dupack_out :: "u8 list \<Rightarrow> int \<Rightarrow> u32 \<Rightarrow> u8 list" where
  "dupack_out pkt plus' timestamp = dupack_ip pkt plus' @ dupack_tcp pkt timestamp @ dupack_ts pkt timestamp"

text \<open>
  What is required of a fabricated packet \<open>ptr\<close> built from the template \<open>tmpl\<close>.
\<close>

definition dupack_ok :: "u8 list \<Rightarrow> int \<Rightarrow> u32 \<Rightarrow> u8 list \<Rightarrow> bool" where
  "dupack_ok tmpl plus' timestamp ptr \<longleftrightarrow>
     length ptr = sizeof_iphdr + sizeof_tcphdr + sizeof_tshdr \<and>
     ip_saddr ptr = ip_saddr tmpl \<and> ip_daddr ptr = ip_daddr tmpl \<and>
     tcp_source ptr (ip_ihl ptr * 4) = tcp_source tmpl (ip_ihl tmpl * 4) \<and>
     tcp_dest ptr (ip_ihl ptr * 4) = tcp_dest tmpl (ip_ihl tmpl * 4) \<and>
     tcp_ack_seq ptr (ip_ihl ptr * 4) = tcp_ack_seq tmpl (ip_ihl tmpl * 4) \<and>
     uint (ip_id ptr) = (uint (ip_id tmpl) + plus') mod 65536 \<and>
     getTimestampVal ptr = timestamp \<and>
     ip_checksum_ok ptr \<and> tcp_checksum_ok ptr"

subsection \<open>Example packets and states\<close>

text \<open>
  Packets on a connection between 10.0.0.1 port 50000 (the local sender, behind the tap)
  and 10.0.0.2 port 8080 (the remote side, behind the socket). Each list is padded to
  the 1500 bytes of \<open>data\<close>.

  \<open>tmpl52\<close>, \<open>ack_low52\<close> and \<open>ack_high52\<close> are pure ACKs from the remote side with
  the Timestamp option (IHL 5, total length 52, data offset 8, flags ACK): ACK numbers
  \<open>0x0F00\<close>, \<open>0x0F80\<close> and \<open>0x1005\<close>, TSval 1000, 2000 and 3000.
  \<open>rst40\<close> is a reset from the remote side: only RST set, ACK number field 0.
  \<open>data_seq1000\<close> and \<open>data_seqffffffff\<close> are data segments of the local sender with
  8 bytes of payload (flags PSH and ACK) and sequence numbers \<open>0x1000\<close> and
  \<open>0xFFFFFFFF\<close>.
\<close>

definition tmpl52 :: packet where
  "tmpl52 = \<lparr>pkt_length = 52, data =
     [0x45, 0x00, 0x00, 0x34,  0x12, 0x34, 0x40, 0x00,  0x40, 0x06, 0x00, 0x00,
      0x0A, 0x00, 0x00, 0x02,  0x0A, 0x00, 0x00, 0x01,
      0x1F, 0x90, 0xC3, 0x50,  0x00, 0x00, 0x20, 0x00,  0x00, 0x00, 0x0F, 0x00,
      0x80, 0x10, 0x00, 0xE5,  0x00, 0x00, 0x00, 0x00,
      0x01, 0x01, 0x08, 0x0A,  0x00, 0x00, 0x03, 0xE8,  0x00, 0x00, 0x01, 0xF4]
     @ replicate 1448 0\<rparr>"

definition ack_low52 :: packet where
  "ack_low52 = \<lparr>pkt_length = 52, data =
     [0x45, 0x00, 0x00, 0x34,  0x12, 0x35, 0x40, 0x00,  0x40, 0x06, 0x00, 0x00,
      0x0A, 0x00, 0x00, 0x02,  0x0A, 0x00, 0x00, 0x01,
      0x1F, 0x90, 0xC3, 0x50,  0x00, 0x00, 0x20, 0x00,  0x00, 0x00, 0x0F, 0x80,
      0x80, 0x10, 0x00, 0xE5,  0x00, 0x00, 0x00, 0x00,
      0x01, 0x01, 0x08, 0x0A,  0x00, 0x00, 0x07, 0xD0,  0x00, 0x00, 0x01, 0xF4]
     @ replicate 1448 0\<rparr>"

definition ack_high52 :: packet where
  "ack_high52 = \<lparr>pkt_length = 52, data =
     [0x45, 0x00, 0x00, 0x34,  0x12, 0x36, 0x40, 0x00,  0x40, 0x06, 0x00, 0x00,
      0x0A, 0x00, 0x00, 0x02,  0x0A, 0x00, 0x00, 0x01,
      0x1F, 0x90, 0xC3, 0x50,  0x00, 0x00, 0x20, 0x00,  0x00, 0x00, 0x10, 0x05,
      0x80, 0x10, 0x00, 0xE5,  0x00, 0x00, 0x00, 0x00,
      0x01, 0x01, 0x08, 0x0A,  0x00, 0x00, 0x0B, 0xB8,  0x00, 0x00, 0x01, 0xF4]
     @ replicate 1448 0\<rparr>"

definition rst40 :: packet where
  "rst40 = \<lparr>pkt_length = 40, data =
     [0x45, 0x00, 0x00, 0x28,  0x12, 0x37, 0x40, 0x00,  0x40, 0x06, 0x00, 0x00,
      0x0A, 0x00, 0x00, 0x02,  0x0A, 0x00, 0x00, 0x01,
      0x1F, 0x90, 0xC3, 0x50,  0x00, 0x00, 0x20, 0x00,  0x00, 0x00, 0x00, 0x00,
      0x50, 0x04, 0x00, 0x00,  0x00, 0x00, 0x00, 0x00]
     @ replicate 1460 0\<rparr>"

definition data_seq1000 :: packet where
  "data_seq1000 = \<lparr>pkt_length = 60, data =
     [0x45, 0x00, 0x00, 0x3C,  0x56, 0x78, 0x40, 0x00,  0x40, 0x06, 0x00, 0x00,
      0x0A, 0x00, 0x00, 0x01,  0x0A, 0x00, 0x00, 0x02,
      0xC3, 0x50, 0x1F, 0x90,  0x00, 0x00, 0x10, 0x00,  0x00, 0x00, 0x20, 0x00,
      0x80, 0x18, 0x00, 0xE5,  0x00, 0x00, 0x00, 0x00,
      0x01, 0x01, 0x08, 0x0A,  0x00, 0x00, 0x01, 0xF4,  0x00, 0x00, 0x03, 0xE8,
      0x61, 0x62, 0x63, 0x64,  0x65, 0x66, 0x67, 0x68]
     @ replicate 1440 0\<rparr>"

definition data_seqffffffff :: packet where
  "data_seqffffffff = \<lparr>pkt_length = 60, data =
     [0x45, 0x00, 0x00, 0x3C,  0x56, 0x79, 0x40, 0x00,  0x40, 0x06, 0x00, 0x00,
      0x0A, 0x00, 0x00, 0x01,  0x0A, 0x00, 0x00, 0x02,
      0xC3, 0x50, 0x1F, 0x90,  0xFF, 0xFF, 0xFF, 0xFF,  0x00, 0x00, 0x20, 0x00,
      0x80, 0x18, 0x00, 0xE5,  0x00, 0x00, 0x00, 0x00,
      0x01, 0x01, 0x08, 0x0A,  0x00, 0x00, 0x01, 0xF4,  0x00, 0x00, 0x03, 0xE8,
      0x61, 0x62, 0x63, 0x64,  0x65, 0x66, 0x67, 0x68]
     @ replicate 1440 0\<rparr>"

text \<open>
  \<open>Qsock\<close> right after \<open>queue_init\<close> and one \<open>enqueue_packet\<close>, and the same queue
  after the following \<open>dequeue_packet\<close>.
\<close>

definition qsock_with :: "packet \<Rightarrow> pktqueue" where
  "qsock_with p =
     \<lparr>arr = (replicate 100 Wild)[1 := Ptr p], Qname = ''Qsock'', buffer_size = 100,
      rear = 1, front = 0, fullness = 1, sfullness = 1 / 2, bfullness = pkt_length p\<rparr>"

definition qsock_after :: "packet \<Rightarrow> pktqueue" where
  "qsock_after p =
     \<lparr>arr = (replicate 100 Wild)[1 := Ptr p], Qname = ''Qsock'', buffer_size = 100,
      rear = 1, front = 1, fullness = 0, sfullness = 1 / 4, bfullness = 0\<rparr>"

text \<open>
  A state in the phase after the template capture: \<open>in_backward_cc = 1\<close>,
  \<open>trigger_seq = 0x1000\<close>, \<open>pkt_count = 5\<close>, the template \<open>tmpl52\<close>, an empty
  \<open>Qtap\<close>, and the packet \<open>p\<close> waiting in \<open>Qsock\<close>.
\<close>

definition st_active :: "packet \<Rightarrow> tun_state" where
  "st_active p =
     main_init\<lparr>Qsock := qsock_with p, trigger_seq := 0x1000, dupack := Ptr tmpl52,
               in_backward_cc := 1, pkt_count := 5\<rparr>"


text \<open>
  The pure ACK \<open>ack40\<close> as a packet of recorded length 40, the state \<open>st_wait p\<close> in phase 0
  (the template is awaited) with \<open>p\<close> waiting in \<open>Qsock\<close>, and the state \<open>st_tmpl40 q\<close> in
  which \<open>ack40pkt\<close> is the template and \<open>Qsock\<close> is \<open>q\<close>. \<open>qsock_second p p'\<close> is \<open>Qsock\<close>
  after \<open>p\<close> was enqueued and dequeued and \<open>p'\<close> was enqueued, and
  \<open>qsock_second_after p p'\<close> the same queue after \<open>p'\<close> was dequeued. \<open>dupack40\<close> are 52
  bytes that differ in the low byte of the IP id and the second byte of the IP checksum.
\<close>

definition ack40pkt :: packet where
  "ack40pkt = \<lparr>pkt_length = 40, data = ack40\<rparr>"

definition st_wait :: "packet \<Rightarrow> tun_state" where
  "st_wait p =
     main_init\<lparr>Qsock := qsock_with p, trigger_seq := 0x1000, in_backward_cc := 0, pkt_count := 5\<rparr>"

definition st_tmpl40 :: "pktqueue \<Rightarrow> tun_state" where
  "st_tmpl40 q =
     main_init\<lparr>Qsock := q, trigger_seq := 0x1000, dupack := Ptr ack40pkt,
               in_backward_cc := 1, pkt_count := 5\<rparr>"

definition qsock_second :: "packet \<Rightarrow> packet \<Rightarrow> pktqueue" where
  "qsock_second p p' =
     \<lparr>arr = (replicate 100 Wild)[1 := Ptr p, 2 := Ptr p'], Qname = ''Qsock'', buffer_size = 100,
      rear = 2, front = 1, fullness = 1, sfullness = 5 / 8, bfullness = pkt_length p'\<rparr>"

definition qsock_second_after :: "packet \<Rightarrow> packet \<Rightarrow> pktqueue" where
  "qsock_second_after p p' =
     \<lparr>arr = (replicate 100 Wild)[1 := Ptr p, 2 := Ptr p'], Qname = ''Qsock'', buffer_size = 100,
      rear = 2, front = 2, fullness = 0, sfullness = 5 / 16, bfullness = 0\<rparr>"

definition dupack40 :: "u8 \<Rightarrow> u8 \<Rightarrow> u8 list" where
  "dupack40 id_low check_low =
     [0x45, 0x00, 0x00, 0x28,  0x12, id_low, 0x40, 0x00,  0x40, 0x06, 0x14, check_low,
      0x0A, 0x00, 0x00, 0x02,  0x0A, 0x00, 0x00, 0x01,
      0x1F, 0x90, 0xC3, 0x50,  0x00, 0x00, 0x20, 0x00,  0x00, 0x00, 0x0F, 0x00,
      0x50, 0x10, 0x00, 0xE5,  0x81, 0x30, 0x00, 0x00,
      0x00, 0x00, 0x00, 0x00,  0x00, 0x00, 0x07, 0xD0,  0x00, 0x00, 0x00, 0x00]"

text \<open>
  The duplicate ACKs built from \<open>tmpl52\<close> with TSval 2000: 52 bytes that differ in the
  low byte of the IP id and the second byte of the IP checksum.
\<close>

definition dupack52 :: "u8 \<Rightarrow> u8 \<Rightarrow> u8 list" where
  "dupack52 id_low check_low =
     [0x45, 0x00, 0x00, 0x34,  0x12, id_low, 0x40, 0x00,  0x40, 0x06, 0x14, check_low,
      0x0A, 0x00, 0x00, 0x02,  0x0A, 0x00, 0x00, 0x01,
      0x1F, 0x90, 0xC3, 0x50,  0x00, 0x00, 0x20, 0x00,  0x00, 0x00, 0x0F, 0x00,
      0x80, 0x10, 0x00, 0xE5,  0x46, 0x31, 0x00, 0x00,
      0x01, 0x01, 0x08, 0x0A,  0x00, 0x00, 0x07, 0xD0,  0x00, 0x00, 0x01, 0xF4]"
section \<open>Properties of the queue\<close>

lemma int32_id: "- (2^31) \<le> x \<Longrightarrow> x < 2^31 \<Longrightarrow> int32 x = x"
  by (simp add: int32_def signed_take_bit_int_eq_self)

lemma int32_add_left: "int32 (int32 x + y) = int32 (x + y)"
  unfolding int32_def by (metis signed_take_bit_add signed_take_bit_signed_take_bit min.idem)

lemma int32_diff_left: "int32 (int32 x - y) = int32 (x - y)"
  unfolding int32_def by (metis signed_take_bit_diff signed_take_bit_signed_take_bit min.idem)

lemma c_rem_mod: "0 \<le> x \<Longrightarrow> 0 < y \<Longrightarrow> c_rem x y = x mod y"
  unfolding c_rem_def
  by (cases "x = 0") (simp_all add: minus_mult_div_eq_mod)

lemma mod_inj_int:
  fixes i j b a :: int
  assumes "0 \<le> i" "i < b" "0 \<le> j" "j < b" "(a + i) mod b = (a + j) mod b"
  shows "i = j"
proof (rule ccontr)
  assume ne: "i \<noteq> j"
  have "b dvd ((a + i) - (a + j))"
    using assms(5) by (simp add: mod_eq_dvd_iff)
  then have "b dvd (i - j)" by simp
  moreover have "i - j \<noteq> 0" using ne by simp
  ultimately have "\<bar>b\<bar> \<le> \<bar>i - j\<bar>" by (rule dvd_imp_le_int[rotated])
  with assms show False by linarith
qed

lemma pkts_of_append: "pkts_of (xs @ ys) = pkts_of xs @ pkts_of ys"
  by (induction xs rule: pkts_of.induct) simp_all

lemma pkts_of_map_Ptr: "pkts_of (map Ptr ps) = ps"
  by (induction ps) simp_all

lemma queue_inv_init:
  assumes "0 < n" "n < 2 ^ 31"
  shows "queue_inv (queue_init n name)" and "queued (queue_init n name) = []"
  using assms by (simp_all add: queue_inv_def queue_init_def queued_def byte_sum_def int32_def)

lemma enqueue_t:
  assumes "queue_inv q"
  shows "int32 (c_rem (int32 (rear q + 1)) (buffer_size q)) = (rear q + 1) mod buffer_size q"
proof -
  from assms have b: "0 < buffer_size q" "buffer_size q < 2 ^ 31" "0 \<le> rear q" "rear q < buffer_size q"
    by (simp_all add: queue_inv_def)
  then have "int32 (rear q + 1) = rear q + 1" by (intro int32_id) linarith+
  moreover have "c_rem (rear q + 1) (buffer_size q) = (rear q + 1) mod buffer_size q"
    using b by (intro c_rem_mod) linarith+
  moreover have "0 \<le> (rear q + 1) mod buffer_size q" "(rear q + 1) mod buffer_size q < buffer_size q"
    using b by simp_all
  then have "int32 ((rear q + 1) mod buffer_size q) = (rear q + 1) mod buffer_size q"
    using b by (intro int32_id) linarith+
  ultimately show ?thesis by simp
qed

lemma dequeue_f:
  assumes "queue_inv q"
  shows "int32 (c_rem (int32 (front q + 1)) (buffer_size q)) = (front q + 1) mod buffer_size q"
proof -
  from assms have b: "0 < buffer_size q" "buffer_size q < 2 ^ 31" "0 \<le> front q" "front q < buffer_size q"
    by (simp_all add: queue_inv_def)
  then have "int32 (front q + 1) = front q + 1" by (intro int32_id) linarith+
  moreover have "c_rem (front q + 1) (buffer_size q) = (front q + 1) mod buffer_size q"
    using b by (intro c_rem_mod) linarith+
  moreover have "0 \<le> (front q + 1) mod buffer_size q" "(front q + 1) mod buffer_size q < buffer_size q"
    using b by simp_all
  then have "int32 ((front q + 1) mod buffer_size q) = (front q + 1) mod buffer_size q"
    using b by (intro int32_id) linarith+
  ultimately show ?thesis by simp
qed

lemma enqueue_full:
  assumes "queue_inv q" "(rear q + 1) mod buffer_size q = front q"
  shows "enqueue_packet q pkt = (0, q)"
  using assms by (simp add: enqueue_packet_def enqueue_t)

lemma fullness_bound:
  assumes "queue_inv q"
  shows "0 \<le> fullness q" "fullness q \<le> buffer_size q - 1"
  using assms by (simp_all add: queue_inv_def)

lemma empty_iff:
  assumes "queue_inv q"
  shows "front q = rear q \<longleftrightarrow> fullness q = 0"
proof
  assume "front q = rear q" then show "fullness q = 0" using assms by (simp add: queue_inv_def)
next
  assume z: "fullness q = 0"
  from assms have b: "0 \<le> front q" "front q < buffer_size q" "0 \<le> rear q" "rear q < buffer_size q"
    and f: "fullness q = (rear q - front q) mod buffer_size q"
    by (simp_all add: queue_inv_def)
  have "buffer_size q dvd (rear q - front q)"
    using z f by (simp add: dvd_eq_mod_eq_0)
  moreover have "\<bar>rear q - front q\<bar> < \<bar>buffer_size q\<bar>" using b by linarith
  ultimately have "rear q - front q = 0"
    using dvd_imp_le_int[of "rear q - front q" "buffer_size q"] by linarith
  then show "front q = rear q" by simp
qed

lemma byte_sum_append: "byte_sum (xs @ ys) = byte_sum xs + byte_sum ys"
  by (simp add: byte_sum_def)

lemma enqueue_ok:
  assumes inv: "queue_inv q" and nf: "(rear q + 1) mod buffer_size q \<noteq> front q"
  shows "fst (enqueue_packet q pkt) = 1"
    and "queue_inv (snd (enqueue_packet q pkt))"
    and "queued (snd (enqueue_packet q pkt)) = queued q @ [Ptr pkt]"
proof -
  define b where "b = buffer_size q"
  define m where "m = (rear q - front q) mod b"
  define t where "t = (rear q + 1) mod b"
  define q' where "q' = q\<lparr>rear := t, arr := (arr q)[nat t := Ptr pkt],
                  fullness := int32 (fullness q + 1),
                  sfullness := ewma ewma_a (sfullness q) (int32 (fullness q + 1)),
                  bfullness := int32 (bfullness q + pkt_length pkt)\<rparr>"
  from inv have b: "0 < b" "b < 2 ^ 31" "length (arr q) = nat b"
    "0 \<le> front q" "front q < b" "0 \<le> rear q" "rear q < b"
    and fl: "fullness q = m"
    and qp: "map Ptr (pkts_of (queued q)) = queued q"
    and bf: "bfullness q = int32 (byte_sum (pkts_of (queued q)))"
    by (simp_all add: queue_inv_def b_def m_def)
  have eq: "enqueue_packet q pkt = (1, q')"
    using nf by (simp add: enqueue_packet_def enqueue_t[OF inv] q'_def t_def b_def Let_def)
  have m_rng: "0 \<le> m" "m < b" using b by (simp_all add: m_def)
  have t_rng: "0 \<le> t" "t < b" using b by (simp_all add: t_def)
  have "(m + 1) mod b = ((rear q - front q) + 1) mod b"
    unfolding m_def by (rule mod_add_left_eq)
  then have m1: "(m + 1) mod b = (rear q + 1 - front q) mod b"
    by (simp add: algebra_simps)
  have m_lt: "m + 1 < b"
  proof (rule ccontr)
    assume "\<not> m + 1 < b"
    with m_rng have "m + 1 = b" by linarith
    then have "(rear q + 1 - front q) mod b = 0" using m1 by simp
    then have "b dvd ((rear q + 1) - front q)" by (simp add: dvd_eq_mod_eq_0)
    then have "(rear q + 1) mod b = front q mod b" by (simp add: mod_eq_dvd_iff)
    then show False using nf b by (simp add: b_def)
  qed
  have m': "(t - front q) mod b = m + 1"
  proof -
    have "(t - front q) mod b = (rear q + 1 - front q) mod b"
      unfolding t_def by (rule mod_diff_left_eq)
    also have "\<dots> = (m + 1) mod b" using m1 by simp
    also have "\<dots> = m + 1" using m_rng m_lt by simp
    finally show ?thesis .
  qed
  have idx_m: "(front q + 1 + m) mod b = t"
  proof -
    have "(front q + 1 + m) mod b = (front q + 1 + (rear q - front q)) mod b"
      unfolding m_def by (rule mod_add_right_eq)
    then show ?thesis by (simp add: t_def add.commute)
  qed
  have idx_i: "(front q + 1 + int i) mod b \<noteq> t" if "i < nat m" for i
  proof
    assume "(front q + 1 + int i) mod b = t"
    then have "(front q + 1 + int i) mod b = (front q + 1 + m) mod b" using idx_m by simp
    moreover have "0 \<le> int i" "int i < b" using that m_rng by linarith+
    ultimately have "int i = m"
      using m_rng by (intro mod_inj_int[of "int i" b m "front q + 1"])
    with that show False by simp
  qed
  have sel: "rear q' = t" "front q' = front q" "buffer_size q' = b"
    by (simp_all add: q'_def b_def)
  have idx': "idx q' i = idx q i" for i by (simp add: idx_def q'_def)
  have nat_m: "nat (m + 1) = Suc (nat m)" using m_rng by simp
  have old: "map (\<lambda>i. arr q' ! idx q i) [0..<nat m] = map (\<lambda>i. arr q ! idx q i) [0..<nat m]"
  proof (rule map_cong[OF refl])
    fix i assume "i \<in> set [0..<nat m]"
    then have i: "i < nat m" by simp
    have nn: "0 \<le> (front q + 1 + int i) mod b" using b by simp
    have "idx q i \<noteq> nat t"
      unfolding idx_def b_def[symmetric] eq_nat_nat_iff[OF nn t_rng(1)] by (rule idx_i[OF i])
    then show "arr q' ! idx q i = arr q ! idx q i" by (simp add: q'_def)
  qed
  have new: "arr q' ! idx q (nat m) = Ptr pkt"
  proof -
    have "idx q (nat m) = nat t" using idx_m m_rng by (simp add: idx_def b_def)
    moreover have "nat t < length (arr q)" using t_rng b by simp
    ultimately show ?thesis by (simp add: q'_def)
  qed
  have queued': "queued q' = queued q @ [Ptr pkt]"
  proof -
    have "queued q' = map (\<lambda>i. arr q' ! idx q i) [0..<nat (m + 1)]"
      by (simp add: queued_def idx' sel m')
    also have "\<dots> = map (\<lambda>i. arr q' ! idx q i) [0..<nat m] @ [arr q' ! idx q (nat m)]"
      by (simp add: nat_m)
    also have "\<dots> = queued q @ [Ptr pkt]"
      unfolding old new by (simp add: queued_def m_def b_def)
    finally show ?thesis .
  qed
  have pk': "pkts_of (queued q') = pkts_of (queued q) @ [pkt]"
    by (simp add: queued' pkts_of_append)
  have f': "int32 (fullness q + 1) = m + 1"
    using fl m_rng m_lt b by (intro trans[OF int32_id]) linarith+
  have inv': "queue_inv q'"
    unfolding queue_inv_def
  proof (intro conjI)
    show "fullness q' = (rear q' - front q') mod buffer_size q'"
      using f' m' by (simp add: q'_def b_def)
    show "map Ptr (pkts_of (queued q')) = queued q'"
      by (simp add: queued' pkts_of_append qp)
    show "bfullness q' = int32 (byte_sum (pkts_of (queued q')))"
    proof -
      have "bfullness q' = int32 (bfullness q + pkt_length pkt)" by (simp add: q'_def)
      also have "\<dots> = int32 (byte_sum (pkts_of (queued q)) + pkt_length pkt)"
        unfolding bf by (rule int32_add_left)
      also have "\<dots> = int32 (byte_sum (pkts_of (queued q')))"
        by (simp add: pk' byte_sum_def)
      finally show ?thesis .
    qed
  qed (use b t_rng in \<open>simp_all add: q'_def b_def\<close>)
  show "fst (enqueue_packet q pkt) = 1" by (simp add: eq)
  show "queue_inv (snd (enqueue_packet q pkt))" by (simp add: eq inv')
  show "queued (snd (enqueue_packet q pkt)) = queued q @ [Ptr pkt]" by (simp add: eq queued')
qed

lemma dequeue_empty:
  assumes "queue_inv q" "front q = rear q"
  shows "dequeue_packet q = Some (NULL, q)" and "queued q = []"
  using assms by (simp_all add: dequeue_packet_def isempty_def queued_def)

lemma dequeue_ok:
  assumes inv: "queue_inv q" and ne: "front q \<noteq> rear q"
  shows "\<exists>pk q'. dequeue_packet q = Some (Ptr pk, q') \<and> queued q = Ptr pk # queued q' \<and> queue_inv q'"
proof -
  define b where "b = buffer_size q"
  define m where "m = (rear q - front q) mod b"
  define f where "f = (front q + 1) mod b"
  from inv have b: "0 < b" "b < 2 ^ 31" "length (arr q) = nat b"
    "0 \<le> front q" "front q < b" "0 \<le> rear q" "rear q < b"
    and fl: "fullness q = m"
    and qp: "map Ptr (pkts_of (queued q)) = queued q"
    and bf: "bfullness q = int32 (byte_sum (pkts_of (queued q)))"
    by (simp_all add: queue_inv_def b_def m_def)
  have m_rng: "0 \<le> m" "m < b" using b by (simp_all add: m_def)
  have f_rng: "0 \<le> f" "f < b" using b by (simp_all add: f_def)
  have m_pos: "0 < m"
    using empty_iff[OF inv] ne fl m_rng by linarith
  have nat_m: "nat m = Suc (nat (m - 1))" using m_pos by simp
  have idx0: "idx q 0 = nat f" by (simp add: idx_def f_def b_def)
  have q_cons: "queued q = arr q ! nat f # map (\<lambda>i. arr q ! idx q (Suc i)) [0..<nat (m - 1)]"
  proof -
    have "queued q = map (\<lambda>i. arr q ! idx q i) [0..<Suc (nat (m - 1))]"
      using nat_m by (simp add: queued_def m_def b_def)
    also have "\<dots> = arr q ! idx q 0 # map (\<lambda>i. arr q ! idx q i) [Suc 0..<Suc (nat (m - 1))]"
      by (simp add: upt_conv_Cons del: upt_Suc)
    also have "map (\<lambda>i. arr q ! idx q i) [Suc 0..<Suc (nat (m - 1))] =
               map (\<lambda>i. arr q ! idx q (Suc i)) [0..<nat (m - 1)]"
      by (simp add: map_Suc_upt[symmetric] del: upt_Suc)
    finally show ?thesis by (simp add: idx0)
  qed
  obtain pk where pk: "arr q ! nat f = Ptr pk"
  proof -
    have "arr q ! nat f \<in> set (queued q)" by (simp add: q_cons)
    then have "arr q ! nat f \<in> set (map Ptr (pkts_of (queued q)))" by (simp only: qp)
    then show ?thesis using that by auto
  qed
  define q' where "q' = q\<lparr>front := f,
                    fullness := int32 (fullness q - 1),
                    sfullness := ewma ewma_a (sfullness q) (int32 (fullness q - 1)),
                    bfullness := int32 (bfullness q - pkt_length pk)\<rparr>"
  have fq: "int32 (c_rem (int32 (front q + 1)) (buffer_size q)) = f"
    by (simp add: dequeue_f[OF inv] f_def b_def)
  have eq: "dequeue_packet q = Some (Ptr pk, q')"
    using ne by (simp add: dequeue_packet_def isempty_def fq Let_def pk q'_def)
  have sel: "rear q' = rear q" "front q' = f" "buffer_size q' = b" "arr q' = arr q"
    by (simp_all add: q'_def b_def)
  have m': "(rear q - f) mod b = m - 1"
  proof -
    have "(rear q - f) mod b = (rear q - (front q + 1)) mod b"
      unfolding f_def by (rule mod_diff_right_eq)
    also have "\<dots> = ((rear q - front q) - 1) mod b" by (simp add: algebra_simps)
    also have "\<dots> = (m - 1) mod b" unfolding m_def by (rule mod_diff_left_eq[symmetric])
    also have "\<dots> = m - 1" using m_pos m_rng by simp
    finally show ?thesis .
  qed
  have idx': "idx q' i = idx q (Suc i)" for i
  proof -
    have "(f + 1 + int i) mod b = (front q + 1 + (1 + int i)) mod b"
      unfolding f_def by (simp add: mod_add_left_eq add.assoc)
    then show ?thesis by (simp add: idx_def sel b_def[symmetric] add.commute)
  qed
  have queued': "queued q' = map (\<lambda>i. arr q ! idx q (Suc i)) [0..<nat (m - 1)]"
    by (simp add: queued_def sel m' idx')
  have q_eq: "queued q = Ptr pk # queued q'" by (simp add: q_cons pk queued')
  have pk': "pkts_of (queued q) = pk # pkts_of (queued q')" by (simp add: q_eq)
  have f': "int32 (fullness q - 1) = m - 1"
    using fl m_rng m_pos b by (intro trans[OF int32_id]) linarith+
  have inv': "queue_inv q'"
    unfolding queue_inv_def
  proof (intro conjI)
    show "fullness q' = (rear q' - front q') mod buffer_size q'"
      unfolding sel m' by (simp add: q'_def f')
    show "map Ptr (pkts_of (queued q')) = queued q'"
      using qp unfolding q_eq by simp
    show "bfullness q' = int32 (byte_sum (pkts_of (queued q')))"
    proof -
      have "bfullness q' = int32 (bfullness q - pkt_length pk)" by (simp add: q'_def)
      also have "\<dots> = int32 (byte_sum (pkts_of (queued q)) - pkt_length pk)"
        unfolding bf by (rule int32_diff_left)
      also have "\<dots> = int32 (byte_sum (pkts_of (queued q')))"
        by (simp add: pk' byte_sum_def)
      finally show ?thesis .
    qed
  qed (use b f_rng in \<open>simp_all add: sel\<close>)
  show ?thesis using eq q_eq inv' by blast
qed

lemma enqueue_size: "buffer_size (snd (enqueue_packet q pkt)) = buffer_size q"
  by (simp add: enqueue_packet_def Let_def)

lemma run_ops_inv:
  assumes "queue_inv q" "accepted = returned @ pkts_of (queued q)"
  shows "\<exists>q' accepted' returned'. run_ops q accepted returned ops = Some (q', accepted', returned') \<and>
           queue_inv q' \<and> accepted' = returned' @ pkts_of (queued q') \<and>
           buffer_size q' = buffer_size q"
  using assms
proof (induction ops arbitrary: q accepted returned)
  case Nil
  then show ?case by simp
next
  case (Cons op ops)
  show ?case
  proof (cases op)
    case (Enqueue pkt)
    show ?thesis
    proof (cases "(rear q + 1) mod buffer_size q = front q")
      case True
      then have "enqueue_packet q pkt = (0, q)" using Cons.prems(1) by (rule enqueue_full[rotated])
      then show ?thesis using Cons.IH[OF Cons.prems] Enqueue by simp
    next
      case False
      obtain r q1 where e: "enqueue_packet q pkt = (r, q1)" by (cases "enqueue_packet q pkt")
      from enqueue_ok[OF Cons.prems(1) False, of pkt] e
      have r: "r = 1" and i1: "queue_inv q1" and c1: "queued q1 = queued q @ [Ptr pkt]" by simp_all
      have "accepted @ [pkt] = returned @ pkts_of (queued q1)"
        using Cons.prems(2) by (simp add: c1 pkts_of_append)
      from Cons.IH[OF i1 this] enqueue_size[of q pkt] e r Enqueue show ?thesis by simp
    qed
  next
    case Dequeue
    show ?thesis
    proof (cases "front q = rear q")
      case True
      from dequeue_empty[OF Cons.prems(1) True] Cons.IH[OF Cons.prems] Dequeue
      show ?thesis by simp
    next
      case False
      from dequeue_ok[OF Cons.prems(1) False]
      obtain pk q1 where d: "dequeue_packet q = Some (Ptr pk, q1)"
        and c1: "queued q = Ptr pk # queued q1" and i1: "queue_inv q1" by blast
      have bs: "buffer_size q1 = buffer_size q"
        using d by (auto simp: dequeue_packet_def Let_def split: if_splits pkt_ptr.splits)
      have "accepted = (returned @ [pk]) @ pkts_of (queued q1)"
        using Cons.prems(2) by (simp add: c1)
      from Cons.IH[OF i1 this] d bs Dequeue show ?thesis by simp
    qed
  qed
qed

lemma length_queued: "queue_inv q \<Longrightarrow> int (length (queued q)) = fullness q"
  by (simp add: queue_inv_def queued_def)

lemma full_iff:
  assumes "queue_inv q"
  shows "(rear q + 1) mod buffer_size q = front q \<longleftrightarrow> fullness q = buffer_size q - 1"
proof -
  define b where "b = buffer_size q"
  define f where "f = front q"
  define r where "r = rear q"
  from assms have b: "0 < b" "0 \<le> f" "f < b" "0 \<le> r" "r < b"
    and fl: "fullness q = (r - f) mod b"
    by (simp_all add: queue_inv_def b_def f_def r_def)
  have m1: "(r + 1) mod b = (if r + 1 < b then r + 1 else 0)"
  proof (cases "r + 1 < b")
    case True
    then show ?thesis using b by (simp add: mod_pos_pos_trivial)
  next
    case False
    then have "r + 1 = b" using b by linarith
    then show ?thesis by simp
  qed
  have m2: "(r - f) mod b = (if f \<le> r then r - f else r - f + b)"
  proof (cases "f \<le> r")
    case True
    then show ?thesis using b by (simp add: mod_pos_pos_trivial)
  next
    case False
    have "(r - f) mod b = (r - f + b) mod b" by simp
    also have "\<dots> = r - f + b" using False b by (intro mod_pos_pos_trivial) linarith+
    finally show ?thesis using False by simp
  qed
  show ?thesis
    unfolding fl b_def[symmetric] f_def[symmetric] r_def[symmetric] m1 m2
    using b by (auto split: if_splits)
qed

lemma length_pkts_of_queued:
  assumes "queue_inv q"
  shows "int (length (pkts_of (queued q))) = fullness q"
proof -
  from assms have "map Ptr (pkts_of (queued q)) = queued q" by (simp add: queue_inv_def)
  then have "length (pkts_of (queued q)) = length (queued q)" by (metis length_map)
  then show ?thesis using length_queued[OF assms] by simp
qed

lemma run_ops_fifo:
  assumes "queue_inv q"
  shows "\<exists>q' accepted' returned'. run_ops q accepted returned ops = Some (q', accepted', returned') \<and>
           (pkts_of (queued q'), accepted', returned')
             = fifo_spec (nat (buffer_size q - 1)) (pkts_of (queued q)) accepted returned ops"
  using assms
proof (induction ops arbitrary: q accepted returned)
  case Nil
  then show ?case by simp
next
  case (Cons op ops)
  note inv = Cons.prems
  have bpos: "0 < buffer_size q" using inv by (simp add: queue_inv_def)
  note lp = length_pkts_of_queued[OF inv]
  note fb = fullness_bound[OF inv]
  show ?case
  proof (cases op)
    case (Enqueue pkt)
    show ?thesis
    proof (cases "(rear q + 1) mod buffer_size q = front q")
      case True
      then have e: "enqueue_packet q pkt = (0, q)" using inv by (rule enqueue_full[rotated])
      have "fullness q = buffer_size q - 1" using True full_iff[OF inv] by simp
      then have nl: "\<not> length (pkts_of (queued q)) < nat (buffer_size q - 1)" using lp by linarith
      show ?thesis using Cons.IH[OF inv, of accepted returned] Enqueue e nl by simp
    next
      case False
      obtain r q1 where e: "enqueue_packet q pkt = (r, q1)" by (cases "enqueue_packet q pkt")
      from enqueue_ok[OF inv False, of pkt] e
      have r: "r = 1" and i1: "queue_inv q1" and c1: "queued q1 = queued q @ [Ptr pkt]" by simp_all
      have bs: "buffer_size q1 = buffer_size q" using enqueue_size[of q pkt] e by simp
      have "fullness q \<noteq> buffer_size q - 1" using False full_iff[OF inv] by simp
      then have l: "length (pkts_of (queued q)) < nat (buffer_size q - 1)" using lp fb by linarith
      have p1: "pkts_of (queued q1) = pkts_of (queued q) @ [pkt]" by (simp add: c1 pkts_of_append)
      show ?thesis
        using Cons.IH[OF i1, of "accepted @ [pkt]" returned] Enqueue e r l by (simp add: bs p1)
    qed
  next
    case Dequeue
    show ?thesis
    proof (cases "front q = rear q")
      case True
      note d = dequeue_empty[OF inv True]
      show ?thesis using Cons.IH[OF inv, of accepted returned] Dequeue d by simp
    next
      case False
      from dequeue_ok[OF inv False]
      obtain pk q1 where d: "dequeue_packet q = Some (Ptr pk, q1)"
        and c1: "queued q = Ptr pk # queued q1" and i1: "queue_inv q1" by blast
      have bs: "buffer_size q1 = buffer_size q"
        using d by (auto simp: dequeue_packet_def Let_def split: if_splits pkt_ptr.splits)
      have p1: "pkts_of (queued q) = pk # pkts_of (queued q1)" by (simp add: c1)
      show ?thesis
        using Cons.IH[OF i1, of accepted "returned @ [pk]"] Dequeue d by (simp add: bs p1)
    qed
  qed
qed

text \<open>
  Claim C4. After any sequence of \<open>enqueue_packet\<close> and \<open>dequeue_packet\<close> calls
  on a queue initialised by \<open>queue_init\<close> with a capacity \<open>queuesize\<close> that is a
  positive \<open>int\<close>: the calls never read an invalid slot; \<open>fullness\<close> is between 0
  and \<open>queuesize - 1\<close> and is the number of queued packets; \<open>bfullness\<close> is the sum
  of the lengths of the queued packets (as a 32-bit \<open>int\<close>, hence exactly that sum
  whenever the sum is representable); \<open>front = rear\<close> exactly when \<open>fullness = 0\<close>;
  an enqueue into a full queue returns 0 and leaves the whole queue record unchanged, and
  an enqueue into a queue that is not full returns 1 and appends the packet at the end;
  a dequeue from a queue that is not empty returns the oldest queued packet and removes
  it, and a dequeue from an empty queue returns \<open>NULL\<close> and changes nothing.
  The calls behave as the bounded first-in-first-out queue \<open>fifo_spec\<close> of
  \<open>queuesize - 1\<close> places: the same packets are accepted, the same packets are returned
  in the same order, and the same packets remain queued, so that no accepted packet is
  reordered, duplicated or lost.
\<close>

theorem queue_invariants:
  assumes "0 < queuesize" "queuesize < 2 ^ 31"
  shows "\<exists>q accepted returned.
           run_ops (queue_init queuesize name) [] [] ops = Some (q, accepted, returned) \<and>
           0 \<le> fullness q \<and> fullness q \<le> queuesize - 1 \<and>
           fullness q = int (length (queued q)) \<and>
           map Ptr (pkts_of (queued q)) = queued q \<and>
           bfullness q = int32 (byte_sum (pkts_of (queued q))) \<and>
           (- (2 ^ 31) \<le> byte_sum (pkts_of (queued q)) \<and> byte_sum (pkts_of (queued q)) < 2 ^ 31
              \<longrightarrow> bfullness q = byte_sum (pkts_of (queued q))) \<and>
           (front q = rear q \<longleftrightarrow> fullness q = 0) \<and>
           (\<forall>pkt. (rear q + 1) mod buffer_size q = front q \<longrightarrow> enqueue_packet q pkt = (0, q)) \<and>
           accepted = returned @ pkts_of (queued q) \<and>
           (\<forall>pkt. (rear q + 1) mod buffer_size q \<noteq> front q \<longrightarrow>
                  (\<exists>q'. enqueue_packet q pkt = (1, q') \<and> queued q' = queued q @ [Ptr pkt])) \<and>
           (front q \<noteq> rear q \<longrightarrow>
              (\<exists>pk q'. dequeue_packet q = Some (Ptr pk, q') \<and> queued q = Ptr pk # queued q')) \<and>
           (front q = rear q \<longrightarrow> dequeue_packet q = Some (NULL, q) \<and> queued q = []) \<and>
           (pkts_of (queued q), accepted, returned)
             = fifo_spec (nat (queuesize - 1)) [] [] [] ops"
proof -
  have i0: "queue_inv (queue_init queuesize name)"
    and c0: "[] = [] @ pkts_of (queued (queue_init queuesize name))"
    and e0: "pkts_of (queued (queue_init queuesize name)) = []"
    using queue_inv_init[OF assms, of name] by simp_all
  from run_ops_inv[OF i0 c0, of ops]
  obtain q accepted returned where
    r: "run_ops (queue_init queuesize name) [] [] ops = Some (q, accepted, returned)"
    and i: "queue_inv q" and f: "accepted = returned @ pkts_of (queued q)"
    and bs: "buffer_size q = queuesize"
    by (auto simp: queue_init_def)
  have 1: "0 \<le> fullness q" "fullness q \<le> queuesize - 1"
    using fullness_bound[OF i] bs by simp_all
  have 2: "fullness q = int (length (queued q))" using length_queued[OF i] by simp
  have 3: "map Ptr (pkts_of (queued q)) = queued q" using i by (simp add: queue_inv_def)
  have 4: "bfullness q = int32 (byte_sum (pkts_of (queued q)))" using i by (simp add: queue_inv_def)
  have 5: "- (2 ^ 31) \<le> byte_sum (pkts_of (queued q)) \<and> byte_sum (pkts_of (queued q)) < 2 ^ 31
              \<longrightarrow> bfullness q = byte_sum (pkts_of (queued q))"
    unfolding 4 by (simp add: int32_id)
  have 6: "front q = rear q \<longleftrightarrow> fullness q = 0" by (rule empty_iff[OF i])
  have 7: "\<forall>pkt. (rear q + 1) mod buffer_size q = front q \<longrightarrow> enqueue_packet q pkt = (0, q)"
    using enqueue_full[OF i] by blast
  have 8: "\<forall>pkt. (rear q + 1) mod buffer_size q \<noteq> front q \<longrightarrow>
                  (\<exists>q'. enqueue_packet q pkt = (1, q') \<and> queued q' = queued q @ [Ptr pkt])"
  proof (intro allI impI)
    fix pkt assume nf: "(rear q + 1) mod buffer_size q \<noteq> front q"
    obtain r' q' where e: "enqueue_packet q pkt = (r', q')" by (cases "enqueue_packet q pkt")
    from enqueue_ok[OF i nf, of pkt] e have "r' = 1" "queued q' = queued q @ [Ptr pkt]" by simp_all
    then show "\<exists>q'. enqueue_packet q pkt = (1, q') \<and> queued q' = queued q @ [Ptr pkt]"
      using e by simp
  qed
  have 9: "front q \<noteq> rear q \<longrightarrow>
              (\<exists>pk q'. dequeue_packet q = Some (Ptr pk, q') \<and> queued q = Ptr pk # queued q')"
    using dequeue_ok[OF i] by blast
  have 10: "front q = rear q \<longrightarrow> dequeue_packet q = Some (NULL, q) \<and> queued q = []"
    using dequeue_empty[OF i] by blast
  have bs0: "buffer_size (queue_init queuesize name) = queuesize" by (simp add: queue_init_def)
  from run_ops_fifo[OF i0, of "[]" "[]" ops] r
  have 11: "(pkts_of (queued q), accepted, returned) = fifo_spec (nat (queuesize - 1)) [] [] [] ops"
    unfolding bs0 e0 by simp
  show ?thesis using r 1 2 3 4 5 6 7 f 8 9 10 11 by blast
qed

theorem queue_invariants_witness:
  "(0::int) < 3 \<and> (3::int) < 2 ^ 31 \<and>
   (\<exists>q accepted returned.
      run_ops (queue_init 3 ''Qtap'') [] [] [Enqueue pktA, Enqueue pktB, Enqueue pktC, Dequeue]
        = Some (q, accepted, returned) \<and>
      0 \<le> fullness q \<and> fullness q \<le> 3 - 1 \<and>
      fullness q = int (length (queued q)) \<and>
      map Ptr (pkts_of (queued q)) = queued q \<and>
      bfullness q = int32 (byte_sum (pkts_of (queued q))) \<and>
      (- (2 ^ 31) \<le> byte_sum (pkts_of (queued q)) \<and> byte_sum (pkts_of (queued q)) < 2 ^ 31
         \<longrightarrow> bfullness q = byte_sum (pkts_of (queued q))) \<and>
      (front q = rear q \<longleftrightarrow> fullness q = 0) \<and>
      (\<forall>pkt. (rear q + 1) mod buffer_size q = front q \<longrightarrow> enqueue_packet q pkt = (0, q)) \<and>
      accepted = returned @ pkts_of (queued q) \<and>
      (\<forall>pkt. (rear q + 1) mod buffer_size q \<noteq> front q \<longrightarrow>
             (\<exists>q'. enqueue_packet q pkt = (1, q') \<and> queued q' = queued q @ [Ptr pkt])) \<and>
      (front q \<noteq> rear q \<longrightarrow>
         (\<exists>pk q'. dequeue_packet q = Some (Ptr pk, q') \<and> queued q = Ptr pk # queued q')) \<and>
      (front q = rear q \<longrightarrow> dequeue_packet q = Some (NULL, q) \<and> queued q = []) \<and>
      pkts_of (queued q) = [pktB] \<and> accepted = [pktA, pktB] \<and> returned = [pktA])"
  using queue_invariants [of 3 "''Qtap''" "[Enqueue pktA, Enqueue pktB, Enqueue pktC, Dequeue]"]
  by simp

lemma int32_numeral_simps:
  "int32 0 = 0" "int32 1 = 1" "int32 2 = 2" "int32 3 = 3" "int32 100 = 100" "int32 200 = 200"
  by (simp_all add: int32_def signed_take_bit_int_eq_self)

lemma replicate_3: "replicate 3 x = [x, x, x]"
  by (simp add: numeral_3_eq_3)

lemma pkt_length_examples: "pkt_length pktA = 100" "pkt_length pktB = 100" "pkt_length pktC = 100"
  by (simp_all add: pktA_def pktB_def pktC_def)

lemma pktA_neq_pktB: "pktA \<noteq> pktB"
  by (simp add: pktA_def pktB_def)

text \<open>
  The overflow scenario: a queue of capacity 3 takes two packets of 100 bytes; the third
  enqueue returns 0 and changes nothing.
\<close>

lemma queue_overflow_scenario:
  "run_ops (queue_init 3 ''Qtap'') [] [] [Enqueue pktA, Enqueue pktB] =
     Some (\<lparr>arr = [Wild, Ptr pktA, Ptr pktB], Qname = ''Qtap'', buffer_size = 3, rear = 2,
             front = 0, fullness = 2, sfullness = 5 / 4, bfullness = 200\<rparr>, [pktA, pktB], [])"
  "enqueue_packet \<lparr>arr = [Wild, Ptr pktA, Ptr pktB], Qname = ''Qtap'', buffer_size = 3, rear = 2,
             front = 0, fullness = 2, sfullness = 5 / 4, bfullness = 200\<rparr> pktC =
     (0, \<lparr>arr = [Wild, Ptr pktA, Ptr pktB], Qname = ''Qtap'', buffer_size = 3, rear = 2,
             front = 0, fullness = 2, sfullness = 5 / 4, bfullness = 200\<rparr>)"
  by (simp_all add: queue_init_def enqueue_packet_def c_rem_def int32_numeral_simps
      ewma_def ewma_a_def pkt_length_examples replicate_3 Let_def)

text \<open>
  Claim C5. \<open>read_packet\<close> does not change the queue and returns \<open>NULL\<close> on an empty
  queue, but on a non-empty queue it returns the slot at \<open>front\<close>, while
  \<open>dequeue_packet\<close> returns the slot after \<open>front\<close>. After two packets were
  enqueued and the first was dequeued, \<open>read_packet\<close> still returns the first packet
  and the next \<open>dequeue_packet\<close> returns the second.
\<close>

theorem read_packet_not_next_dequeue:
  "run_ops (queue_init 3 ''Qsock'') [] [] [Enqueue pktA, Enqueue pktB, Dequeue] =
     Some (\<lparr>arr = [Wild, Ptr pktA, Ptr pktB], Qname = ''Qsock'', buffer_size = 3, rear = 2,
             front = 1, fullness = 1, sfullness = 9 / 8, bfullness = 100\<rparr>, [pktA, pktB], [pktA]) \<and>
   read_packet \<lparr>arr = [Wild, Ptr pktA, Ptr pktB], Qname = ''Qsock'', buffer_size = 3, rear = 2,
             front = 1, fullness = 1, sfullness = 9 / 8, bfullness = 100\<rparr> = Ptr pktA \<and>
   map_option fst (dequeue_packet \<lparr>arr = [Wild, Ptr pktA, Ptr pktB], Qname = ''Qsock'',
             buffer_size = 3, rear = 2, front = 1, fullness = 1, sfullness = 9 / 8,
             bfullness = 100\<rparr>) = Some (Ptr pktB) \<and>
   pktA \<noteq> pktB"
  by (simp add: queue_init_def enqueue_packet_def dequeue_packet_def read_packet_def isempty_def
      c_rem_def int32_numeral_simps ewma_def ewma_a_def pkt_length_examples replicate_3
      pktA_neq_pktB Let_def)

lemma read_packet_empty: "front q = rear q \<Longrightarrow> read_packet q = NULL"
  by (simp add: read_packet_def isempty_def)

section \<open>Properties of the packet codec\<close>

lemma ip_ihl_le: "ip_ihl buf \<le> 15"
proof -
  have "buf ! 0 AND 0x0F \<le> 0x0F" by (rule word_and_le1)
  then show ?thesis unfolding ip_ihl_def by (simp add: word_le_nat_alt)
qed

lemma tcp_doff_le: "tcp_doff buf off \<le> 15"
proof -
  have "unat (drop_bit 4 (buf ! (off + 12))) = unat (buf ! (off + 12)) div 2 ^ 4"
    unfolding unat_drop_bit_eq by (simp add: drop_bit_eq_div)
  moreover have "unat (buf ! (off + 12)) < 256" using unsigned_less[of "buf ! (off + 12)", where 'a=nat] by simp
  ultimately show ?thesis unfolding tcp_doff_def by simp
qed

lemma payload_zero_iff:
  fixes tl :: u16 and i d :: nat
  assumes "i \<le> 15" "d \<le> 15"
  shows "(uint tl - int i * 4 - int d * 4) mod 2 ^ 32 = 0
         \<longleftrightarrow> uint tl - int i * 4 - int d * 4 = 0"
proof
  assume z: "(uint tl - int i * 4 - int d * 4) mod 2 ^ 32 = 0"
  have "uint tl < 65536" using uint_lt2p[of tl] by simp
  then have "\<bar>uint tl - int i * 4 - int d * 4\<bar> < 4294967296"
    using assms uint_ge_0[of tl] by linarith
  then have r: "\<bar>uint tl - int i * 4 - int d * 4\<bar> < 2 ^ 32" by simp
  have "(2::int) ^ 32 dvd (uint tl - int i * 4 - int d * 4)"
    using z by (simp add: dvd_eq_mod_eq_0)
  then show "uint tl - int i * 4 - int d * 4 = 0"
    using r dvd_imp_le_int[of "uint tl - int i * 4 - int d * 4" "2 ^ 32"] by fastforce
qed simp

text \<open>
  Claim C6. \<open>CheckPureTCPAck\<close> returns 1 if the protocol field is 6, the ACK flag
  is 1, the flags URG, PSH, RST, SYN and FIN are all 0 and the payload length
  \<open>tot_len - ihl * 4 - doff * 4\<close> is 0; in every other case, non-TCP packets
  included, it returns 0.
\<close>

theorem CheckPureTCPAck_iff:
  "CheckPureTCPAck buffer =
     (if ip_protocol buffer = 6 \<and>
         tcp_ack buffer (ip_ihl buffer * 4) = 1 \<and>
         tcp_urg buffer (ip_ihl buffer * 4) = 0 \<and>
         tcp_psh buffer (ip_ihl buffer * 4) = 0 \<and>
         tcp_rst buffer (ip_ihl buffer * 4) = 0 \<and>
         tcp_syn buffer (ip_ihl buffer * 4) = 0 \<and>
         tcp_fin buffer (ip_ihl buffer * 4) = 0 \<and>
         uint (ip_tot_len buffer) - int (ip_ihl buffer) * 4
           - int (tcp_doff buffer (ip_ihl buffer * 4)) * 4 = 0
      then 1 else 0)"
proof -
  note pz = payload_zero_iff[OF ip_ihl_le tcp_doff_le, of "ip_tot_len buffer" buffer buffer "ip_ihl buffer * 4"]
  show ?thesis
    unfolding CheckPureTCPAck_def Let_def pz
    by (simp add: tcp_ack_def tcp_urg_def tcp_psh_def tcp_rst_def tcp_syn_def tcp_fin_def tcp_flag_def)
qed

text \<open>
  The scenario of the spec: IHL 5, total length 40, data offset 5, only ACK set gives 1;
  with SYN set as well, or with total length 48, the result is 0.
\<close>

lemma CheckPureTCPAck_scenario:
  "CheckPureTCPAck ack40 = 1"
  "CheckPureTCPAck (ack40[33 := 0x12]) = 0"
  "CheckPureTCPAck (ack40[3 := 48]) = 0"
  by (simp_all add: CheckPureTCPAck_def ack40_def ip_protocol_def ip_ihl_def ip_tot_len_def
      be16_def tcp_doff_def tcp_ack_def tcp_urg_def tcp_psh_def tcp_rst_def tcp_syn_def
      tcp_fin_def tcp_flag_def Let_def)

subsection \<open>The Internet checksum\<close>

lemma and_ffff: "(s::int) AND 0xffff = s mod 65536"
proof -
  have "s AND mask 16 = take_bit 16 s" by (simp add: take_bit_eq_mask)
  then show ?thesis by (simp add: take_bit_eq_mod mask_eq_exp_minus_1)
qed

lemma uint_csum_fold: "uint (csum_fold s) = 65535 - reduce16 s"
proof -
  define s2 where "s2 = (s div 65536 + s mod 65536) + (s div 65536 + s mod 65536) div 65536"
  define q where "q = s2 div 65536"
  define r where "r = s2 mod 65536"
  have r: "0 \<le> r" "r < 65536" by (simp_all add: r_def)
  have s2: "s2 = 65536 * q + r" by (simp add: q_def r_def)
  have "csum_fold s = word_of_int (NOT s2)"
    by (simp add: csum_fold_def Let_def and_ffff drop_bit_eq_div s2_def)
  then have "uint (csum_fold s) = (NOT s2) mod 65536"
    by (simp add: uint_word_of_int)
  also have "NOT s2 = 65536 * (- q - 1) + (65535 - r)" unfolding not_int_def s2 by simp
  also have "\<dots> mod 65536 = 65535 - r"
    using r by (intro int_mod_pos_eq[where q = "- q - 1"]) simp_all
  finally show ?thesis by (simp add: reduce16_def Let_def s2_def r_def)
qed

lemma reduce16_props:
  assumes "0 \<le> s" "s < 2 ^ 32"
  shows "0 \<le> reduce16 s" "reduce16 s \<le> 65535" "(reduce16 s - s) mod 65535 = 0"
    "reduce16 s = 0 \<longleftrightarrow> s = 0"
proof -
  define h where "h = s div 65536"
  define l where "l = s mod 65536"
  have s: "s = 65536 * h + l" by (simp add: h_def l_def)
  have l: "0 \<le> l" "l < 65536" by (simp_all add: l_def)
  have h0: "0 \<le> h" using assms(1) by (simp add: h_def pos_imp_zdiv_nonneg_iff)
  have "s < 65536 * 65536" using assms(2) by simp
  then have h1: "h < 65536" using s l by linarith
  have r: "reduce16 s = (if h + l < 65536 then h + l else h + l - 65535)"
  proof (cases "h + l < 65536")
    case True
    then have d: "(h + l) div 65536 = 0" using h0 l by (intro div_pos_pos_trivial) linarith+
    have "(h + l) mod 65536 = h + l" using True h0 l by (intro mod_pos_pos_trivial) linarith+
    then show ?thesis using True d unfolding reduce16_def Let_def h_def[symmetric] l_def[symmetric]
      by simp
  next
    case False
    have d: "(h + l) div 65536 = 1"
      using False h1 l by (intro int_div_pos_eq[where r = "h + l - 65536"]) linarith+
    have "(h + l + 1) mod 65536 = h + l - 65535"
      using False h1 l by (intro int_mod_pos_eq[where q = 1]) linarith+
    then show ?thesis using False d unfolding reduce16_def Let_def h_def[symmetric] l_def[symmetric]
      by simp
  qed
  show "0 \<le> reduce16 s" using r h0 l by (simp split: if_splits)
  show "reduce16 s \<le> 65535" using r h1 l by (simp split: if_splits)
  show "(reduce16 s - s) mod 65535 = 0"
  proof (cases "h + l < 65536")
    case True
    then have "reduce16 s - s = 65535 * (- h)" using r s by simp
    then show ?thesis by (simp only: mod_mult_self1_is_0)
  next
    case False
    then have "reduce16 s - s = 65535 * (- h - 1)" using r s by simp
    then show ?thesis by (simp only: mod_mult_self1_is_0)
  qed
  show "reduce16 s = 0 \<longleftrightarrow> s = 0"
  proof (cases "h + l < 65536")
    case True
    then have "reduce16 s = h + l" using r by simp
    then show ?thesis using s h0 l by linarith
  next
    case False
    then have "reduce16 s = h + l - 65535" using r by simp
    then have "reduce16 s \<noteq> 0" "s \<noteq> 0" using False s h0 l by linarith+
    then show ?thesis by simp
  qed
qed

lemma csum_fold_roundtrip:
  assumes "0 \<le> s" "s + 65535 < 2 ^ 32"
  shows "csum_fold (s + uint (csum_fold s)) = 0"
proof -
  define r where "r = reduce16 s"
  define s' where "s' = s + (65535 - r)"
  have s32: "s < 2 ^ 32" using assms by simp
  note p = reduce16_props[OF assms(1) s32, folded r_def]
  have s'0: "0 \<le> s'" using assms p by (simp add: s'_def)
  have s'32: "s' < 2 ^ 32" using assms p by (simp add: s'_def)
  note p' = reduce16_props[OF s'0 s'32]
  have "s' \<noteq> 0"
  proof (cases "s = 0")
    case True
    then have "r = 0" using p(4) by simp
    then show ?thesis using True by (simp add: s'_def)
  next
    case False
    then show ?thesis using assms(1) p(2) unfolding s'_def by linarith
  qed
  then have nz: "reduce16 s' \<noteq> 0" using p'(4) by simp
  have d1: "65535 dvd (reduce16 s' - s')" using p'(3) by (simp add: dvd_eq_mod_eq_0)
  have d2: "65535 dvd (r - s)" using p(3) by (simp add: dvd_eq_mod_eq_0)
  have "65535 dvd ((reduce16 s' - s') + 65535)" by (rule dvd_add[OF d1]) simp
  then have "65535 dvd ((reduce16 s' - s') + 65535 - (r - s))" by (rule dvd_diff[OF _ d2])
  moreover have "(reduce16 s' - s') + 65535 - (r - s) = reduce16 s'" by (simp add: s'_def)
  ultimately have "65535 dvd reduce16 s'" by simp
  then obtain k where k: "reduce16 s' = 65535 * k" by (auto simp: dvd_def)
  have "k = 1" using k p'(1,2) nz by linarith
  then have "reduce16 s' = 65535" using k by simp
  then have "uint (csum_fold s') = 0" by (simp add: uint_csum_fold)
  then have "csum_fold s' = 0" by (simp add: uint_0_iff)
  then show ?thesis by (simp add: s'_def r_def uint_csum_fold)
qed

lemma csum_sum_append: "even (length xs) \<Longrightarrow> csum_sum (xs @ ys) = csum_sum xs + csum_sum ys"
  by (induction xs rule: csum_sum.induct) simp_all

lemma le16_bounds: "0 \<le> le16 a b" "le16 a b \<le> 65535"
proof -
  have "uint a < 256" "uint b < 256" using uint_lt2p[of a] uint_lt2p[of b] by simp_all
  then show "le16 a b \<le> 65535" by (simp add: le16_def)
  show "0 \<le> le16 a b" by (simp add: le16_def)
qed

lemma csum_sum_bounds: "0 \<le> csum_sum xs \<and> csum_sum xs \<le> 65535 * int (length xs)"
proof (induction xs rule: csum_sum.induct)
  case (1 b0 b1 ptr)
  then show ?case using le16_bounds[of b0 b1] by simp
next
  case (2 b0)
  have "uint b0 < 256" using uint_lt2p[of b0] by simp
  then show ?case by simp
next
  case 3
  then show ?case by simp
qed

lemma csum_sum_all_zero: "\<forall>x\<in>set xs. x = 0 \<Longrightarrow> csum_sum xs = 0"
  by (induction xs rule: csum_sum.induct) (simp_all add: le16_def)

lemma csum_sum_zeros: "csum_sum (replicate n 0) = 0"
  by (rule csum_sum_all_zero) simp

lemma uint_ucast_u16_u8: "uint (ucast (c :: u16) :: u8) = uint c mod 256"
  by (simp add: unsigned_ucast_eq take_bit_eq_mod)

lemma uint_drop8: "uint (drop_bit 8 (c :: u16)) mod 256 = uint c div 256"
proof -
  have "uint c < 65536" using uint_lt2p[of c] by simp
  then have "uint c div 256 < 256" by simp
  moreover have "0 \<le> uint c div 256" by (simp add: pos_imp_zdiv_nonneg_iff)
  ultimately have "(uint c div 256) mod 256 = uint c div 256" by (rule mod_pos_pos_trivial[rotated])
  moreover have "uint (drop_bit 8 c) = uint c div 256"
    by (simp add: drop_bit_eq_div uint_div_distrib)
  ultimately show ?thesis by simp
qed

lemma le16_le16_bytes: "le16_bytes c = [a, b] \<Longrightarrow> le16 a b = uint c"
proof -
  assume "le16_bytes c = [a, b]"
  then have "a = ucast c" "b = ucast (drop_bit 8 c)" by (simp_all add: le16_bytes_def)
  then have "le16 a b = uint c mod 256 + 256 * (uint c div 256)"
    unfolding le16_def by (simp only: uint_ucast_u16_u8 uint_drop8)
  then show ?thesis by simp
qed

lemma be16_htons: "be16 (htons_bytes v) 0 = v"
  unfolding be16_def htons_bytes_def
  by (rule bit_word_eqI) (auto simp: bit_simps)

lemma be32_htonl: "be32 (htonl_bytes v) 0 = v"
  unfolding be32_def htonl_bytes_def
proof (rule bit_word_eqI)
  fix n assume "n < LENGTH(32)"
  then have n: "n < 32" by simp
  consider "n < 8" | "8 \<le> n" "n < 16" | "16 \<le> n" "n < 24" | "24 \<le> n"
    by linarith
  then show "bit (push_bit 24 (ucast ([ucast (drop_bit 24 v), ucast (drop_bit 16 v),
                  ucast (drop_bit 8 v), ucast v :: u8] ! 0)) OR
             push_bit 16 (ucast ([ucast (drop_bit 24 v), ucast (drop_bit 16 v),
                  ucast (drop_bit 8 v), ucast v :: u8] ! (0 + 1))) OR
             push_bit 8 (ucast ([ucast (drop_bit 24 v), ucast (drop_bit 16 v),
                  ucast (drop_bit 8 v), ucast v :: u8] ! (0 + 2))) OR
             ucast ([ucast (drop_bit 24 v), ucast (drop_bit 16 v),
                  ucast (drop_bit 8 v), ucast v :: u8] ! (0 + 3)) :: u32) n = bit v n"
    using n by cases (auto simp: bit_simps)
qed

lemma length_store: "off + length bs \<le> length buf \<Longrightarrow> length (store buf off bs) = length buf"
  by (simp add: store_def)

lemma take_store:
  assumes "off + length bs \<le> n" "n \<le> length buf"
  shows "take n (store buf off bs) = store (take n buf) off bs"
proof -
  have a: "length (take off buf) = off" using assms by simp
  have "take n (store buf off bs) = take off buf @ bs @ take (n - off - length bs) (drop (off + length bs) buf)"
    unfolding store_def using assms a by simp
  moreover have "take (n - off - length bs) (drop (off + length bs) buf) = drop (off + length bs) (take n buf)"
    using assms by (simp add: drop_take)
  moreover have "take off (take n buf) = take off buf" using assms by (simp add: min_def)
  ultimately show ?thesis by (simp add: store_def)
qed

lemma nth_store_before: "i < off \<Longrightarrow> off \<le> length buf \<Longrightarrow> store buf off bs ! i = buf ! i"
  by (simp add: store_def nth_append)

lemma split_at_word:
  assumes "k + 2 \<le> length xs"
  shows "xs = take k xs @ xs ! k # xs ! (k + 1) # drop (k + 2) xs"
proof -
  have "xs = take k xs @ drop k xs" by simp
  also have "drop k xs = xs ! k # drop (Suc k) xs" using assms by (simp add: Cons_nth_drop_Suc)
  also have "drop (Suc k) xs = xs ! (k + 1) # drop (k + 2) xs"
    using assms by (simp add: Cons_nth_drop_Suc)
  finally show ?thesis .
qed

lemma csum_sum_store2:
  assumes "even k" "k + 2 \<le> length xs"
  shows "csum_sum (store xs k [a, b]) = csum_sum xs - le16 (xs ! k) (xs ! (k + 1)) + le16 a b"
proof -
  have ev: "even (length (take k xs))" using assms by simp
  have "csum_sum (store xs k [a, b]) = csum_sum (take k xs) + (le16 a b + csum_sum (drop (k + 2) xs))"
    unfolding store_def using csum_sum_append[OF ev] by simp
  moreover have "csum_sum xs = csum_sum (take k xs) + (le16 (xs ! k) (xs ! (k + 1)) + csum_sum (drop (k + 2) xs))"
    using csum_sum_append[OF ev, of "xs ! k # xs ! (k + 1) # drop (k + 2) xs"]
      split_at_word[OF assms(2)] by simp
  ultimately show ?thesis by simp
qed

lemma csum_roundtrip:
  assumes "even k" "k + 2 \<le> n" "n \<le> length xs" "n \<le> 65536"
    and z: "xs ! k = 0" "xs ! (k + 1) = 0"
  shows "\<exists>c. csum xs (int n) = Some c \<and> csum (store xs k (le16_bytes c)) (int n) = Some 0"
proof -
  define ys where "ys = take n xs"
  define s where "s = csum_sum ys"
  define c where "c = csum_fold s"
  have ly: "length ys = n" using assms(3) by (simp add: ys_def)
  have c1: "csum xs (int n) = Some c" using assms(3) by (simp add: csum_def c_def s_def ys_def)
  obtain a b where ab: "le16_bytes c = [a, b]" by (simp add: le16_bytes_def)
  have yk: "ys ! k = 0" "ys ! (k + 1) = 0" using z assms(2) by (simp_all add: ys_def)
  have "csum_sum (store ys k [a, b]) = s - le16 (ys ! k) (ys ! (k + 1)) + le16 a b"
    unfolding s_def using assms(1,2) ly by (intro csum_sum_store2) simp_all
  also have "\<dots> = s + uint c" unfolding yk le16_le16_bytes[OF ab] by (simp add: le16_def)
  finally have s': "csum_sum (store ys k (le16_bytes c)) = s + uint (csum_fold s)"
    unfolding ab by (simp add: c_def)
  have s0: "0 \<le> s" using csum_sum_bounds[of ys] by (simp add: s_def)
  have "s \<le> 65535 * int n" using csum_sum_bounds[of ys] ly by (simp add: s_def)
  also have "\<dots> \<le> 65535 * 65536" using assms(4) by simp
  finally have s1: "s + 65535 < 2 ^ 32" by simp
  have len: "length (le16_bytes c) = 2" by (simp add: le16_bytes_def)
  have "take n (store xs k (le16_bytes c)) = store ys k (le16_bytes c)"
    unfolding ys_def using assms(2,3) len by (intro take_store) simp_all
  moreover have "length (store xs k (le16_bytes c)) = length xs"
    using assms(2,3) len by (intro length_store) simp
  ultimately have "csum (store xs k (le16_bytes c)) (int n) = Some (csum_fold (s + uint (csum_fold s)))"
    using assms(3) s' by (simp add: csum_def)
  then show ?thesis using c1 csum_fold_roundtrip[OF s0 s1] by simp
qed

lemma ip_ihl_store: "0 < off \<Longrightarrow> off \<le> length h \<Longrightarrow> ip_ihl (store h off bs) = ip_ihl h"
  by (simp add: ip_ihl_def nth_store_before)

text \<open>
  Claim C7. For an IPv4 header \<open>h\<close> with a valid \<open>ihl\<close> (at least 5, and the
  buffer holds \<open>ihl * 4\<close> bytes): after \<open>h.check = 0\<close> and then
  \<open>h.check = csum(h, ihl * 4)\<close>, the value of \<open>csum(h, ihl * 4)\<close> is 0.
\<close>

theorem ip_checksum_roundtrip:
  assumes "5 \<le> ip_ihl h" "ip_ihl h * 4 \<le> length h"
  shows "\<exists>c. csum (store h 10 [0, 0]) (int (ip_ihl (store h 10 [0, 0]) * 4)) = Some c \<and>
             csum (store (store h 10 [0, 0]) 10 (le16_bytes c))
                  (int (ip_ihl (store (store h 10 [0, 0]) 10 (le16_bytes c)) * 4)) = Some 0"
proof -
  define h0 where "h0 = store h 10 [0, 0]"
  have l: "20 \<le> length h" using assms by simp
  have l0: "length h0 = length h" unfolding h0_def using l by (intro length_store) simp
  have i0: "ip_ihl h0 = ip_ihl h" unfolding h0_def using l by (intro ip_ihl_store) simp_all
  have z: "h0 ! 10 = 0" "h0 ! (10 + 1) = 0" using l by (simp_all add: h0_def store_def nth_append)
  have n: "10 + 2 \<le> ip_ihl h * 4" "ip_ihl h * 4 \<le> length h0" "ip_ihl h * 4 \<le> 65536"
    using assms ip_ihl_le[of h] l0 by simp_all
  from csum_roundtrip[OF _ n z] obtain c where
    c: "csum h0 (int (ip_ihl h * 4)) = Some c"
       "csum (store h0 10 (le16_bytes c)) (int (ip_ihl h * 4)) = Some 0" by auto
  have "ip_ihl (store h0 10 (le16_bytes c)) = ip_ihl h0"
    using l l0 by (intro ip_ihl_store) simp_all
  then show ?thesis using c i0 unfolding h0_def by simp
qed

theorem ip_checksum_roundtrip_witness:
  "5 \<le> ip_ihl (take 20 ack40) \<and> ip_ihl (take 20 ack40) * 4 \<le> length (take 20 ack40) \<and>
   (\<exists>c. csum (store (take 20 ack40) 10 [0, 0])
             (int (ip_ihl (store (take 20 ack40) 10 [0, 0]) * 4)) = Some c \<and>
        csum (store (store (take 20 ack40) 10 [0, 0]) 10 (le16_bytes c))
             (int (ip_ihl (store (store (take 20 ack40) 10 [0, 0]) 10 (le16_bytes c)) * 4)) = Some 0)"
  using ip_checksum_roundtrip [of "take 20 ack40"]
  by (simp add: ip_ihl_def ack40_def)

subsection \<open>The packet that create_dupack builds\<close>

lemma length_htons_bytes: "length (htons_bytes v) = 2" by (simp add: htons_bytes_def)
lemma length_htonl_bytes: "length (htonl_bytes v) = 4" by (simp add: htonl_bytes_def)
lemma length_le16_bytes: "length (le16_bytes v) = 2" by (simp add: le16_bytes_def)

lemma store_append_left:
  "off + length bs \<le> length xs \<Longrightarrow> store (xs @ ys) off bs = store xs off bs @ ys"
  by (simp add: store_def)

lemma store_append_right:
  "length xs \<le> off \<Longrightarrow> store (xs @ ys) off bs = xs @ store ys (off - length xs) bs"
  by (simp add: store_def)

lemma store_0_append: "length bs = length xs \<Longrightarrow> store (xs @ ys) 0 bs = bs @ ys"
  by (simp add: store_def)

lemma store_0_whole: "length bs = length xs \<Longrightarrow> store xs 0 bs = bs"
  by (simp add: store_def)

lemma replicate_52_split: "replicate 52 (0::u8) = replicate 20 0 @ replicate 20 0 @ replicate 12 0"
  by (simp add: replicate_add[symmetric])

lemma replicate_32_split: "replicate 32 (0::u8) = replicate 20 0 @ replicate 12 0"
  by (simp add: replicate_add[symmetric])

lemma dupack_lengths:
  assumes "52 \<le> length pkt"
  shows "length (dupack_ipz pkt plus') = 20" "length (dupack_ip pkt plus') = 20"
    "length (dupack_tcpz pkt) = 20" "length (dupack_ts pkt timestamp) = 12"
    "length (dupack_psh pkt) = 12" "length (dupack_tcp pkt timestamp) = 20"
    "length (dupack_pseudogram pkt timestamp) = 44"
  using assms
  by (simp_all add: dupack_ipz_def dupack_ip_def dupack_tcpz_def dupack_ts_def dupack_psh_def
      dupack_tcp_def dupack_pseudogram_def length_store length_htons_bytes length_htonl_bytes
      length_le16_bytes)

lemma create_dupack_eq:
  assumes len: "52 \<le> length pkt"
  shows "create_dupack pkt plus' timestamp =
           Some (dupack_ip pkt plus' @ dupack_tcp pkt timestamp @ dupack_ts pkt timestamp)"
proof -
  define ip where "ip = take 20 pkt"
  define tcp where "tcp = take 20 (drop 20 pkt)"
  define ts where "ts = take 12 (drop 40 pkt)"
  define idb where "idb = htons_bytes (word_of_int (int32 (uint (ip_id ip) + plus')))"
  define ipz where "ipz = dupack_ipz pkt plus'"
  define c1 where "c1 = csum_fold (csum_sum (ipz @ replicate 32 0))"
  define ipc where "ipc = dupack_ip pkt plus'"
  define tcpz where "tcpz = dupack_tcpz pkt"
  define tsv where "tsv = dupack_ts pkt timestamp"
  define psh where "psh = dupack_psh pkt"
  define c2 where "c2 = csum_fold (csum_sum (psh @ tcpz @ tsv))"
  have L: "length ip = 20" "length tcp = 20" "length ts = 12" "length idb = 2"
    using len by (simp_all add: ip_def tcp_def ts_def idb_def length_htons_bytes)
  have Lz: "length ipz = 20" "length ipc = 20" "length tcpz = 20" "length tsv = 12" "length psh = 12"
    using dupack_lengths[OF len] by (simp_all add: ipz_def ipc_def tcpz_def tsv_def psh_def)
  have ipz: "ipz = store (store ip 4 idb) 10 [0, 0]"
    by (simp add: ipz_def dupack_ipz_def ip_def idb_def)
  have ipc: "ipc = store ipz 10 (le16_bytes c1)"
    by (simp add: ipc_def dupack_ip_def ipz_def c1_def)
  have d1: "store (replicate 52 0) 0 ip = ip @ replicate 32 0"
    unfolding replicate_52_split replicate_32_split using L by (intro store_0_append) simp
  have d2: "store (ip @ replicate 32 0) 4 idb = store ip 4 idb @ replicate 32 0"
    using L by (intro store_append_left) simp
  have d3: "store (store ip 4 idb @ replicate 32 0) 10 [0, 0] = ipz @ replicate 32 0"
    unfolding ipz using L by (intro store_append_left) (simp add: length_store)
  have cs1: "csum (ipz @ replicate 32 0) 52 = Some c1"
    using Lz by (simp add: csum_def c1_def)
  have d4: "store (ipz @ replicate 32 0) 10 (le16_bytes c1) = ipc @ replicate 32 0"
    unfolding ipc using Lz by (intro store_append_left) (simp add: length_le16_bytes)
  have d5: "store (ipc @ replicate 32 0) 20 tcp = ipc @ tcp @ replicate 12 0"
  proof -
    have "store (ipc @ replicate 32 0) 20 tcp = ipc @ store (replicate 32 0) (20 - length ipc) tcp"
      using Lz by (intro store_append_right) simp
    also have "store (replicate 32 0) (20 - length ipc) tcp = tcp @ replicate 12 0"
      unfolding replicate_32_split using L Lz by (simp add: store_0_append)
    finally show ?thesis .
  qed
  have d6: "store (ipc @ tcp @ replicate 12 0) 40 ts = ipc @ tcp @ ts"
  proof -
    have "store ((ipc @ tcp) @ replicate 12 0) 40 ts = (ipc @ tcp) @ store (replicate 12 0) (40 - length (ipc @ tcp)) ts"
      using L Lz by (intro store_append_right) simp
    also have "store (replicate 12 0) (40 - length (ipc @ tcp)) ts = ts"
      using L Lz by (simp add: store_0_whole)
    finally show ?thesis by simp
  qed
  have ipc_tail: "drop 12 ipc = drop 12 ip"
    using L by (simp add: ipc ipz store_def length_le16_bytes)
  have sa: "ip_saddr (ipc @ tcp @ ts) = take 4 (drop 12 pkt)"
  proof -
    have "ip_saddr (ipc @ tcp @ ts) = take 4 (drop 12 ipc)" using Lz by (simp add: ip_saddr_def)
    then show ?thesis using len by (simp add: ipc_tail ip_def drop_take)
  qed
  have da: "ip_daddr (ipc @ tcp @ ts) = take 4 (drop 16 pkt)"
  proof -
    have "drop 16 ipc = drop 4 (drop 12 ipc)" by simp
    then have "drop 16 ipc = drop 16 ip" unfolding ipc_tail by simp
    moreover have "ip_daddr (ipc @ tcp @ ts) = take 4 (drop 16 ipc)" using Lz by (simp add: ip_daddr_def)
    ultimately show ?thesis using len by (simp add: ip_def drop_take)
  qed
  have pshv: "ip_saddr (ipc @ tcp @ ts) @ ip_daddr (ipc @ tcp @ ts) @ [0] @ [6] @ htons_bytes 32 = psh"
    unfolding sa da by (simp add: psh_def dupack_psh_def)
  have d7: "store (ipc @ tcp @ ts) 36 [0, 0] = ipc @ tcpz @ ts"
  proof -
    have "store (ipc @ tcp @ ts) 36 [0, 0] = ipc @ store (tcp @ ts) (36 - length ipc) [0, 0]"
      using Lz by (intro store_append_right) simp
    also have "store (tcp @ ts) (36 - length ipc) [0, 0] = store tcp 16 [0, 0] @ ts"
      using L Lz by (simp add: store_append_left)
    finally show ?thesis by (simp add: tcpz_def dupack_tcpz_def tcp_def)
  qed
  have d8: "store (ipc @ tcpz @ ts) 44 (htonl_bytes timestamp) = ipc @ tcpz @ tsv"
  proof -
    have "store ((ipc @ tcpz) @ ts) 44 (htonl_bytes timestamp)
            = (ipc @ tcpz) @ store ts (44 - length (ipc @ tcpz)) (htonl_bytes timestamp)"
      using Lz by (intro store_append_right) simp
    then show ?thesis using Lz by (simp add: tsv_def dupack_ts_def ts_def)
  qed
  have pg: "psh @ take 20 (drop 20 (ipc @ tcpz @ tsv)) @ take 12 (drop 40 (ipc @ tcpz @ tsv))
              = psh @ tcpz @ tsv"
    using Lz by simp
  have cs2: "csum (psh @ tcpz @ tsv) 44 = Some c2"
    using Lz by (simp add: csum_def c2_def)
  have d9: "store (ipc @ tcpz @ tsv) 36 (le16_bytes c2) = ipc @ store tcpz 16 (le16_bytes c2) @ tsv"
  proof -
    have "store (ipc @ tcpz @ tsv) 36 (le16_bytes c2) = ipc @ store (tcpz @ tsv) (36 - length ipc) (le16_bytes c2)"
      using Lz by (intro store_append_right) simp
    also have "store (tcpz @ tsv) (36 - length ipc) (le16_bytes c2) = store tcpz 16 (le16_bytes c2) @ tsv"
      using Lz by (simp add: store_append_left length_le16_bytes)
    finally show ?thesis .
  qed
  have tcpc: "store tcpz 16 (le16_bytes c2) = dupack_tcp pkt timestamp"
    by (simp add: dupack_tcp_def dupack_pseudogram_def tcpz_def c2_def psh_def tsv_def)
  have cd: "create_dupack pkt plus' timestamp =
     (case csum (store (store (store (replicate 52 0) 0 ip) 4 idb) 10 [0, 0]) 52 of
        None \<Rightarrow> None
      | Some ipcheck \<Rightarrow>
         (case csum ((ip_saddr (store (store (store (store (store (store (replicate 52 0) 0 ip) 4 idb) 10 [0, 0]) 10 (le16_bytes ipcheck)) 20 tcp) 40 ts)
                    @ ip_daddr (store (store (store (store (store (store (replicate 52 0) 0 ip) 4 idb) 10 [0, 0]) 10 (le16_bytes ipcheck)) 20 tcp) 40 ts)
                    @ [0] @ [6] @ htons_bytes 32)
                 @ take 20 (drop 20 (store (store (store (store (store (store (store (store (replicate 52 0) 0 ip) 4 idb) 10 [0, 0]) 10 (le16_bytes ipcheck)) 20 tcp) 40 ts) 36 [0, 0]) 44 (htonl_bytes timestamp)))
                 @ take 12 (drop 40 (store (store (store (store (store (store (store (store (replicate 52 0) 0 ip) 4 idb) 10 [0, 0]) 10 (le16_bytes ipcheck)) 20 tcp) 40 ts) 36 [0, 0]) 44 (htonl_bytes timestamp)))) 44 of
            None \<Rightarrow> None
          | Some tcpcheck \<Rightarrow>
              Some (store (store (store (store (store (store (store (store (store (replicate 52 0) 0 ip) 4 idb) 10 [0, 0]) 10 (le16_bytes ipcheck)) 20 tcp) 40 ts) 36 [0, 0]) 44 (htonl_bytes timestamp)) 36 (le16_bytes tcpcheck))))"
    using len unfolding create_dupack_def Let_def ip_def tcp_def ts_def idb_def
    by (simp cong: option.case_cong)
  have "create_dupack pkt plus' timestamp = Some (ipc @ store tcpz 16 (le16_bytes c2) @ tsv)"
    unfolding cd d1 d2 d3 cs1 option.case d4 d5 d6 pshv d7 d8 pg cs2 d9 ..
  then show ?thesis unfolding tcpc by (simp add: ipc_def tsv_def)
qed

lemma store_segments:
  "length a = off \<Longrightarrow> length old = length bs \<Longrightarrow> store (a @ old @ c) off bs = a @ bs @ c"
  by (simp add: store_def)

lemma take_split: "take (a + b) (drop k xs) = take a (drop k xs) @ take b (drop (k + a) xs)"
  by (simp add: take_add add.commute)

lemma ip_segments:
  "take 20 pkt = take 4 pkt @ take 2 (drop 4 pkt) @ take 4 (drop 6 pkt) @ take 2 (drop 10 pkt)
                   @ take 8 (drop 12 pkt)"
proof -
  have "take 20 pkt = take 4 (drop 0 pkt) @ take 16 (drop 4 pkt)"
    using take_split[of 4 16 0 pkt] by simp
  also have "take 16 (drop 4 pkt) = take 2 (drop 4 pkt) @ take 14 (drop 6 pkt)"
    using take_split[of 2 14 4 pkt] by simp
  also have "take 14 (drop 6 pkt) = take 4 (drop 6 pkt) @ take 10 (drop 10 pkt)"
    using take_split[of 4 10 6 pkt] by simp
  also have "take 10 (drop 10 pkt) = take 2 (drop 10 pkt) @ take 8 (drop 12 pkt)"
    using take_split[of 2 8 10 pkt] by simp
  finally show ?thesis by simp
qed

lemma tcp_segments:
  "take 20 (drop 20 pkt) = take 16 (drop 20 pkt) @ take 2 (drop 36 pkt) @ take 2 (drop 38 pkt)"
proof -
  have "take 20 (drop 20 pkt) = take 16 (drop 20 pkt) @ take 4 (drop 36 pkt)"
    using take_split[of 16 4 20 pkt] by simp
  also have "take 4 (drop 36 pkt) = take 2 (drop 36 pkt) @ take 2 (drop 38 pkt)"
    using take_split[of 2 2 36 pkt] by simp
  finally show ?thesis .
qed

lemma ts_segments:
  "take 12 (drop 40 pkt) = take 4 (drop 40 pkt) @ take 4 (drop 44 pkt) @ take 4 (drop 48 pkt)"
proof -
  have "take 12 (drop 40 pkt) = take 4 (drop 40 pkt) @ take 8 (drop 44 pkt)"
    using take_split[of 4 8 40 pkt] by simp
  also have "take 8 (drop 44 pkt) = take 4 (drop 44 pkt) @ take 4 (drop 48 pkt)"
    using take_split[of 4 4 44 pkt] by simp
  finally show ?thesis .
qed

lemma seg_length: "k + n \<le> length pkt \<Longrightarrow> length (take n (drop k pkt)) = n"
  by simp

lemma ip_id_take: "ip_id (take 20 pkt) = ip_id pkt"
  by (simp add: ip_id_def be16_def)

lemma dupack_ipz_segments:
  assumes "52 \<le> length pkt"
  shows "dupack_ipz pkt plus' =
           take 4 pkt @ htons_bytes (word_of_int (int32 (uint (ip_id pkt) + plus')))
             @ take 4 (drop 6 pkt) @ [0, 0] @ take 8 (drop 12 pkt)"
proof -
  define idb where "idb = htons_bytes (word_of_int (int32 (uint (ip_id pkt) + plus')))"
  have li: "length idb = 2" by (simp add: idb_def length_htons_bytes)
  have l: "length (take 4 pkt) = 4" "length (take 2 (drop 4 pkt)) = 2"
    "length (take 4 (drop 6 pkt)) = 4" "length (take 2 (drop 10 pkt)) = 2"
    using assms by simp_all
  have 1: "store (take 20 pkt) 4 idb
             = take 4 pkt @ idb @ take 4 (drop 6 pkt) @ take 2 (drop 10 pkt) @ take 8 (drop 12 pkt)"
    unfolding ip_segments using l li by (intro store_segments) simp_all
  have "store ((take 4 pkt @ idb @ take 4 (drop 6 pkt)) @ take 2 (drop 10 pkt) @ take 8 (drop 12 pkt)) 10 [0, 0]
          = (take 4 pkt @ idb @ take 4 (drop 6 pkt)) @ [0, 0] @ take 8 (drop 12 pkt)"
    using l li by (intro store_segments) simp_all
  then have 2: "store (take 4 pkt @ idb @ take 4 (drop 6 pkt) @ take 2 (drop 10 pkt) @ take 8 (drop 12 pkt)) 10 [0, 0]
          = take 4 pkt @ idb @ take 4 (drop 6 pkt) @ [0, 0] @ take 8 (drop 12 pkt)"
    by simp
  show ?thesis unfolding dupack_ipz_def ip_id_take idb_def[symmetric] 1 2 ..
qed

lemma dupack_ip_segments:
  assumes "52 \<le> length pkt"
  shows "dupack_ip pkt plus' =
           take 4 pkt @ htons_bytes (word_of_int (int32 (uint (ip_id pkt) + plus')))
             @ take 4 (drop 6 pkt)
             @ le16_bytes (csum_fold (csum_sum (dupack_ipz pkt plus' @ replicate 32 0)))
             @ take 8 (drop 12 pkt)"
proof -
  define idb where "idb = htons_bytes (word_of_int (int32 (uint (ip_id pkt) + plus')))"
  define c where "c = le16_bytes (csum_fold (csum_sum (dupack_ipz pkt plus' @ replicate 32 0)))"
  have li: "length idb = 2" "length c = 2" by (simp_all add: idb_def c_def length_htons_bytes length_le16_bytes)
  have l: "length (take 4 pkt) = 4" "length (take 4 (drop 6 pkt)) = 4" using assms by simp_all
  have "store ((take 4 pkt @ idb @ take 4 (drop 6 pkt)) @ [0, 0] @ take 8 (drop 12 pkt)) 10 c
          = (take 4 pkt @ idb @ take 4 (drop 6 pkt)) @ c @ take 8 (drop 12 pkt)"
    using l li by (intro store_segments) simp_all
  then have "store (take 4 pkt @ idb @ take 4 (drop 6 pkt) @ [0, 0] @ take 8 (drop 12 pkt)) 10 c
          = take 4 pkt @ idb @ take 4 (drop 6 pkt) @ c @ take 8 (drop 12 pkt)"
    by simp
  then show ?thesis
    unfolding dupack_ip_def c_def[symmetric]
    unfolding dupack_ipz_segments[OF assms] idb_def[symmetric] .
qed

lemma dupack_tcpz_segments:
  assumes "52 \<le> length pkt"
  shows "dupack_tcpz pkt = take 16 (drop 20 pkt) @ [0, 0] @ take 2 (drop 38 pkt)"
  unfolding dupack_tcpz_def tcp_segments using assms by (intro store_segments) simp_all

lemma dupack_tcp_segments:
  assumes "52 \<le> length pkt"
  shows "dupack_tcp pkt timestamp =
           take 16 (drop 20 pkt)
             @ le16_bytes (csum_fold (csum_sum (dupack_pseudogram pkt timestamp)))
             @ take 2 (drop 38 pkt)"
  unfolding dupack_tcp_def dupack_tcpz_segments[OF assms]
  using assms by (intro store_segments) (simp_all add: length_le16_bytes)

lemma dupack_ts_segments:
  assumes "52 \<le> length pkt"
  shows "dupack_ts pkt timestamp = take 4 (drop 40 pkt) @ htonl_bytes timestamp @ take 4 (drop 48 pkt)"
  unfolding dupack_ts_def ts_segments using assms by (intro store_segments) (simp_all add: length_htonl_bytes)

lemma dupack_out_length: "52 \<le> length pkt \<Longrightarrow> length (dupack_out pkt plus' timestamp) = 52"
  by (simp add: dupack_out_def dupack_lengths)

lemma dupack_out_segments:
  assumes "52 \<le> length pkt"
  shows "dupack_out pkt plus' timestamp =
           take 4 pkt @ htons_bytes (word_of_int (int32 (uint (ip_id pkt) + plus')))
             @ take 4 (drop 6 pkt)
             @ le16_bytes (csum_fold (csum_sum (dupack_ipz pkt plus' @ replicate 32 0)))
             @ take 8 (drop 12 pkt)
             @ take 16 (drop 20 pkt)
             @ le16_bytes (csum_fold (csum_sum (dupack_pseudogram pkt timestamp)))
             @ take 2 (drop 38 pkt)
             @ take 4 (drop 40 pkt) @ htonl_bytes timestamp @ take 4 (drop 48 pkt)"
  unfolding dupack_out_def dupack_ip_segments[OF assms] dupack_tcp_segments[OF assms]
    dupack_ts_segments[OF assms] by simp

lemmas seg_len_simps = length_htons_bytes length_htonl_bytes length_le16_bytes nth_append

lemma dupack_out_nth:
  assumes "52 \<le> length pkt"
  shows "dupack_out pkt plus' timestamp ! 0 = pkt ! 0" "dupack_out pkt plus' timestamp ! 2 = pkt ! 2" "dupack_out pkt plus' timestamp ! 3 = pkt ! 3" "dupack_out pkt plus' timestamp ! 9 = pkt ! 9" "dupack_out pkt plus' timestamp ! 20 = pkt ! 20" "dupack_out pkt plus' timestamp ! 21 = pkt ! 21" "dupack_out pkt plus' timestamp ! 22 = pkt ! 22" "dupack_out pkt plus' timestamp ! 23 = pkt ! 23" "dupack_out pkt plus' timestamp ! 28 = pkt ! 28" "dupack_out pkt plus' timestamp ! 29 = pkt ! 29" "dupack_out pkt plus' timestamp ! 30 = pkt ! 30" "dupack_out pkt plus' timestamp ! 31 = pkt ! 31"
    "dupack_out pkt plus' timestamp ! 4 = htons_bytes (word_of_int (int32 (uint (ip_id pkt) + plus'))) ! 0"
    "dupack_out pkt plus' timestamp ! 5 = htons_bytes (word_of_int (int32 (uint (ip_id pkt) + plus'))) ! 1"
    "dupack_out pkt plus' timestamp ! 44 = htonl_bytes timestamp ! 0"
    "dupack_out pkt plus' timestamp ! 45 = htonl_bytes timestamp ! 1"
    "dupack_out pkt plus' timestamp ! 46 = htonl_bytes timestamp ! 2"
    "dupack_out pkt plus' timestamp ! 47 = htonl_bytes timestamp ! 3"
  unfolding dupack_out_segments[OF assms]
  using assms by (simp_all add: seg_len_simps)

lemma addr_segments: "take 8 (drop 12 pkt) = take 4 (drop 12 pkt) @ take 4 (drop 16 pkt)"
  using take_split[of 4 4 12 pkt] by simp

lemma dupack_out_addrs:
  assumes "52 \<le> length pkt"
  shows "take 4 (drop 12 (dupack_out pkt plus' timestamp)) = take 4 (drop 12 pkt)"
    "take 4 (drop 16 (dupack_out pkt plus' timestamp)) = take 4 (drop 16 pkt)"
  unfolding dupack_out_segments[OF assms] addr_segments
  using assms by (simp_all add: length_htons_bytes length_htonl_bytes length_le16_bytes)

lemma word16_int32: "(word_of_int (int32 x) :: u16) = word_of_int x"
proof -
  have "take_bit LENGTH(16) (signed_take_bit 31 x) = take_bit LENGTH(16) x"
    by (simp add: take_bit_signed_take_bit)
  then show ?thesis unfolding int32_def by (simp only: word_of_int_eq_iff)
qed

lemma dupack_out_fields:
  assumes "52 \<le> length pkt"
  shows "ip_ihl (dupack_out pkt plus' timestamp) = ip_ihl pkt"
    "ip_tot_len (dupack_out pkt plus' timestamp) = ip_tot_len pkt"
    "ip_protocol (dupack_out pkt plus' timestamp) = ip_protocol pkt"
    "ip_saddr (dupack_out pkt plus' timestamp) = ip_saddr pkt"
    "ip_daddr (dupack_out pkt plus' timestamp) = ip_daddr pkt"
    "tcp_source (dupack_out pkt plus' timestamp) 20 = tcp_source pkt 20"
    "tcp_dest (dupack_out pkt plus' timestamp) 20 = tcp_dest pkt 20"
    "tcp_ack_seq (dupack_out pkt plus' timestamp) 20 = tcp_ack_seq pkt 20"
    "ts_sts (dupack_out pkt plus' timestamp) 40 = timestamp"
    "ip_id (dupack_out pkt plus' timestamp) = word_of_int (uint (ip_id pkt) + plus')"
proof -
  note n = dupack_out_nth[OF assms, of plus' timestamp]
  show "ip_ihl (dupack_out pkt plus' timestamp) = ip_ihl pkt" by (simp add: ip_ihl_def n)
  show "ip_tot_len (dupack_out pkt plus' timestamp) = ip_tot_len pkt"
    by (simp add: ip_tot_len_def be16_def n)
  show "ip_protocol (dupack_out pkt plus' timestamp) = ip_protocol pkt" by (simp add: ip_protocol_def n)
  show "ip_saddr (dupack_out pkt plus' timestamp) = ip_saddr pkt"
    by (simp add: ip_saddr_def dupack_out_addrs[OF assms])
  show "ip_daddr (dupack_out pkt plus' timestamp) = ip_daddr pkt"
    by (simp add: ip_daddr_def dupack_out_addrs[OF assms])
  show "tcp_source (dupack_out pkt plus' timestamp) 20 = tcp_source pkt 20"
    by (simp add: tcp_source_def be16_def n)
  show "tcp_dest (dupack_out pkt plus' timestamp) 20 = tcp_dest pkt 20"
    by (simp add: tcp_dest_def be16_def n)
  show "tcp_ack_seq (dupack_out pkt plus' timestamp) 20 = tcp_ack_seq pkt 20"
    by (simp add: tcp_ack_seq_def be32_def n)
  have "ts_sts (dupack_out pkt plus' timestamp) 40 = be32 (htonl_bytes timestamp) 0"
    by (simp add: ts_sts_def be32_def n numeral_2_eq_2)
  then show "ts_sts (dupack_out pkt plus' timestamp) 40 = timestamp" by (simp add: be32_htonl)
  have "ip_id (dupack_out pkt plus' timestamp)
          = be16 (htons_bytes (word_of_int (int32 (uint (ip_id pkt) + plus')))) 0"
    by (simp add: ip_id_def be16_def n)
  also have "\<dots> = (word_of_int (int32 (uint (ip_id pkt) + plus')) :: u16)" by (rule be16_htons)
  also have "\<dots> = word_of_int (uint (ip_id pkt) + plus')"
    by (rule word16_int32)
  finally show "ip_id (dupack_out pkt plus' timestamp) = word_of_int (uint (ip_id pkt) + plus')" .
qed

lemma csum_whole: "length xs = n \<Longrightarrow> csum xs (int n) = Some (csum_fold (csum_sum xs))"
  by (simp add: csum_def)

lemma csum_prefix:
  "length xs = n \<Longrightarrow> csum (xs @ ys) (int n) = Some (csum_fold (csum_sum xs))"
  by (simp add: csum_def)

lemma dupack_ip_checksum:
  assumes len: "52 \<le> length pkt"
  shows "csum (dupack_out pkt plus' timestamp) 20 = Some 0"
proof -
  define ipz where "ipz = dupack_ipz pkt plus'"
  have lz: "length ipz = 20" using dupack_lengths(1)[OF len] by (simp add: ipz_def)
  have z: "ipz ! 10 = 0" "ipz ! (10 + 1) = 0"
    unfolding ipz_def dupack_ipz_segments[OF len] using len
    by (simp_all add: nth_append length_htons_bytes)
  have pad: "csum_sum (ipz @ replicate 32 0) = csum_sum ipz"
    using lz by (simp add: csum_sum_append csum_sum_zeros)
  from csum_roundtrip[of 10 20 ipz, OF _ _ _ _ z] lz
  obtain c where c: "csum ipz (int 20) = Some c" "csum (store ipz 10 (le16_bytes c)) (int 20) = Some 0"
    by auto
  have "c = csum_fold (csum_sum ipz)" using c(1) csum_whole[OF lz] by simp
  then have ip: "dupack_ip pkt plus' = store ipz 10 (le16_bytes c)"
    by (simp add: dupack_ip_def ipz_def[symmetric] pad)
  have l: "length (dupack_ip pkt plus') = 20" by (rule dupack_lengths(2)[OF len])
  have "csum (dupack_ip pkt plus') (int 20) = Some 0" using c(2) ip by simp
  then have "csum_fold (csum_sum (dupack_ip pkt plus')) = 0" using csum_whole[OF l] by simp
  then show ?thesis
    unfolding dupack_out_def using csum_prefix[OF l, of "dupack_tcp pkt timestamp @ dupack_ts pkt timestamp"]
    by simp
qed

lemma dupack_tcp_checksum:
  assumes len: "52 \<le> length pkt"
  shows "csum (dupack_psh pkt @ dupack_tcp pkt timestamp @ dupack_ts pkt timestamp) 44 = Some 0"
proof -
  define pg where "pg = dupack_pseudogram pkt timestamp"
  note L = dupack_lengths[OF len]
  have lp: "length pg = 44" using L by (simp add: pg_def)
  have z: "pg ! 28 = 0" "pg ! (28 + 1) = 0"
    unfolding pg_def dupack_pseudogram_def dupack_tcpz_segments[OF len]
    using len L by (simp_all add: nth_append)
  from csum_roundtrip[of 28 44 pg, OF _ _ _ _ z] lp
  obtain c where c: "csum pg (int 44) = Some c" "csum (store pg 28 (le16_bytes c)) (int 44) = Some 0"
    by auto
  have cv: "c = csum_fold (csum_sum pg)" using c(1) csum_whole[OF lp] by simp
  have "store pg 28 (le16_bytes c)
          = dupack_psh pkt @ store (dupack_tcpz pkt @ dupack_ts pkt timestamp) (28 - length (dupack_psh pkt)) (le16_bytes c)"
    unfolding pg_def dupack_pseudogram_def using L by (intro store_append_right) simp
  also have "store (dupack_tcpz pkt @ dupack_ts pkt timestamp) (28 - length (dupack_psh pkt)) (le16_bytes c)
          = store (dupack_tcpz pkt) 16 (le16_bytes c) @ dupack_ts pkt timestamp"
    using L by (simp add: store_append_left length_le16_bytes)
  finally have "store pg 28 (le16_bytes c) = dupack_psh pkt @ dupack_tcp pkt timestamp @ dupack_ts pkt timestamp"
    by (simp add: dupack_tcp_def cv pg_def)
  then show ?thesis using c(2) by simp
qed

lemma net_word_sum_nonneg: "0 \<le> net_word_sum xs"
  by (induction xs rule: net_word_sum.induct) simp_all

lemma net_word_sum_csum_sum: "65535 dvd (256 * csum_sum xs - net_word_sum xs)"
proof (induction xs rule: csum_sum.induct)
  case (1 b0 b1 ptr)
  have h: "256 * csum_sum (b0 # b1 # ptr) - net_word_sum (b0 # b1 # ptr)
          = 65535 * uint b1 + (256 * csum_sum ptr - net_word_sum ptr)"
    by (simp add: le16_def)
  have d: "65535 dvd (65535 * uint b1 + (256 * csum_sum ptr - net_word_sum ptr))"
    by (rule dvd_add[OF dvd_triv_left 1])
  show ?case unfolding h by (rule d)
qed simp_all

lemma csum_sum_le_net_word_sum: "csum_sum xs \<le> 256 * net_word_sum xs"
proof (induction xs rule: csum_sum.induct)
  case (1 b0 b1 ptr)
  have e: "csum_sum (b0 # b1 # ptr) = uint b0 + 256 * uint b1 + csum_sum ptr"
    by (simp add: le16_def)
  have e': "net_word_sum (b0 # b1 # ptr) = 256 * uint b0 + uint b1 + net_word_sum ptr" by simp
  have aux: "x + 256 * y + a \<le> 256 * (256 * x + y + b)"
    if "0 \<le> x" "a \<le> 256 * b" for x y a b :: int
    using that by simp
  show ?case unfolding e e' by (rule aux[OF _ 1]) simp
qed simp_all

lemma csum_fold_zero_valid:
  assumes z: "csum_fold (csum_sum xs) = 0" and l: "length xs < 65536"
  shows "ones_complement_valid xs"
proof -
  define s where "s = csum_sum xs"
  have s0: "0 \<le> s" and sl: "s \<le> 65535 * int (length xs)"
    using csum_sum_bounds[of xs] by (simp_all add: s_def)
  have "65535 * int (length xs) \<le> 65535 * 65535" using l by simp
  then have s32: "s < 2 ^ 32" using sl by simp
  note p = reduce16_props[OF s0 s32]
  have "uint (csum_fold s) = 0" using z by (simp add: s_def)
  then have r: "reduce16 s = 65535" by (simp add: uint_csum_fold)
  have snz: "s \<noteq> 0" using p(4) r by auto
  have "65535 dvd (reduce16 s - s)" using p(3) by (simp add: dvd_eq_mod_eq_0)
  then have a: "65535 dvd (65535 - s)" by (simp only: r)
  have "(65535::int) dvd 65535" by simp
  from dvd_diff[OF this a] have ds: "65535 dvd s" by simp
  have "65535 dvd 256 * s" by (rule dvd_mult[OF ds])
  then have "65535 dvd (256 * s - (256 * s - net_word_sum xs))"
    by (rule dvd_diff[OF _ net_word_sum_csum_sum[of xs, folded s_def]])
  then have dn: "65535 dvd net_word_sum xs" by simp
  have "0 < s" using s0 snz by simp
  then have "0 < 256 * net_word_sum xs"
    using csum_sum_le_net_word_sum[of xs] by (simp add: s_def)
  then have "net_word_sum xs \<noteq> 0" by simp
  then show ?thesis using dn by (simp add: ones_complement_valid_def dvd_eq_mod_eq_0)
qed

lemma csum_zero_valid:
  assumes "csum xs (int n) = Some 0" "n < 65536"
  shows "n \<le> length xs" "ones_complement_valid (take n xs)"
proof -
  from assms(1) show n: "n \<le> length xs" by (simp add: csum_def split: if_splits)
  from assms(1) have "csum_fold (csum_sum (take n xs)) = 0" by (simp add: csum_def split: if_splits)
  then show "ones_complement_valid (take n xs)"
    using assms(2) by (intro csum_fold_zero_valid) simp_all
qed

lemma dupack_out_checksums:
  assumes len: "52 \<le> length pkt" and ihl: "ip_ihl pkt = 5" and tot: "ip_tot_len pkt = 52"
    and proto: "ip_protocol pkt = 6"
  shows "ip_checksum_ok (dupack_out pkt plus' timestamp)" "tcp_checksum_ok (dupack_out pkt plus' timestamp)"
proof -
  note F = dupack_out_fields[OF len, of plus' timestamp]
  note L = dupack_lengths[OF len]
  have c20: "csum (dupack_out pkt plus' timestamp) (int 20) = Some 0"
    using dupack_ip_checksum[OF len, of plus' timestamp] by simp
  show "ip_checksum_ok (dupack_out pkt plus' timestamp)"
    unfolding ip_checksum_ok_def F ihl using csum_zero_valid[OF c20] by simp
  have sl: "tcp_segment_len (dupack_out pkt plus' timestamp) = 32"
    by (simp add: tcp_segment_len_def F ihl tot)
  have seg: "take 32 (drop 20 (dupack_out pkt plus' timestamp)) = dupack_tcp pkt timestamp @ dupack_ts pkt timestamp"
    unfolding dupack_out_def using L by simp
  have pg: "tcp_pseudogram (dupack_out pkt plus' timestamp)
          = dupack_psh pkt @ dupack_tcp pkt timestamp @ dupack_ts pkt timestamp"
    unfolding tcp_pseudogram_def sl F ihl proto
    by (simp add: seg dupack_psh_def ip_saddr_def ip_daddr_def)
  have lpg: "length (dupack_psh pkt @ dupack_tcp pkt timestamp @ dupack_ts pkt timestamp) = 44"
    using L by simp
  have c44: "csum (dupack_psh pkt @ dupack_tcp pkt timestamp @ dupack_ts pkt timestamp) (int 44) = Some 0"
    using dupack_tcp_checksum[OF len, of timestamp] by simp
  have v: "ones_complement_valid (dupack_psh pkt @ dupack_tcp pkt timestamp @ dupack_ts pkt timestamp)"
    using csum_zero_valid(2)[OF c44] lpg by simp
  show "tcp_checksum_ok (dupack_out pkt plus' timestamp)"
    unfolding tcp_checksum_ok_def pg F ihl tot
    using v dupack_out_length[OF len, of plus' timestamp] by simp
qed
section \<open>The event loop: arming, the duplicate-ACK bursts, and the end of an episode\<close>

subsection \<open>Auxiliary facts\<close>

lemma int32_add_right: "int32 (x + int32 y) = int32 (x + y)"
  using int32_add_left[of y x] by (simp add: add.commute)

lemma int32_idem: "int32 (int32 x) = int32 x"
  using int32_add_left[of x 0] by simp

lemma create_dupack_int32: "create_dupack pkt (int32 x) timestamp = create_dupack pkt x timestamp"
  unfolding create_dupack_def int32_add_right ..

lemma uint_word16_of_int: "uint (word_of_int x :: u16) = x mod 65536"
  by (simp add: uint_word_of_int take_bit_eq_mod)

lemma create_dupack_ok:
  assumes len: "52 \<le> length pkt" and ihl: "ip_ihl pkt = 5" and tot: "ip_tot_len pkt = 52"
    and proto: "ip_protocol pkt = 6"
  shows "create_dupack pkt plus' timestamp = Some (dupack_out pkt plus' timestamp)"
    and "dupack_ok pkt plus' timestamp (dupack_out pkt plus' timestamp)"
proof -
  show "create_dupack pkt plus' timestamp = Some (dupack_out pkt plus' timestamp)"
    by (simp add: create_dupack_eq[OF len] dupack_out_def)
  note F = dupack_out_fields[OF len, of plus' timestamp]
  have id: "uint (ip_id (dupack_out pkt plus' timestamp)) = (uint (ip_id pkt) + plus') mod 65536"
    unfolding F by (rule uint_word16_of_int)
  have ts: "getTimestampVal (dupack_out pkt plus' timestamp) = timestamp"
    by (simp add: getTimestampVal_def F ihl)
  show "dupack_ok pkt plus' timestamp (dupack_out pkt plus' timestamp)"
    unfolding dupack_ok_def
    using dupack_out_length[OF len, of plus' timestamp] F(4,5,6,7,8) id ts
      dupack_out_checksums[OF len ihl tot proto, of plus' timestamp]
    by (simp add: F(1) ihl)
qed

lemma int_less_uint: "int k < uint (n :: u16) \<longleftrightarrow> k < unat n"
  by (simp only: uint_nat of_nat_less_iff)

lemma dupack_burst_eq:
  assumes len: "52 \<le> length (data d)"
  shows "dupack_burst d p c n (int k) =
           Some (map (\<lambda>i. Cwrite tap_fd
                             (dupack_out (data d) (dupack_plus c n (int i)) (getTimestampVal (data p)))
                             (pkt_length d)) [k..<unat n])"
proof (induction "unat n - k" arbitrary: k)
  case 0
  then have "\<not> int k < uint n" unfolding int_less_uint by simp
  moreover have "[k..<unat n] = []" using 0 by simp
  ultimately show ?case by (subst dupack_burst.simps) simp
next
  case (Suc m)
  then have lt: "int k < uint n" unfolding int_less_uint by simp
  have m: "m = unat n - Suc k" using Suc(2) by simp
  have up: "[k..<unat n] = k # [Suc k..<unat n]" using Suc(2) by (simp add: upt_conv_Cons)
  have cd: "create_dupack (data d) (dupack_plus c n (int k)) (getTimestampVal (data p))
            = Some (dupack_out (data d) (dupack_plus c n (int k)) (getTimestampVal (data p)))"
    by (simp add: create_dupack_eq[OF len] dupack_out_def)
  have ih: "dupack_burst d p c n (int k + 1) =
           Some (map (\<lambda>i. Cwrite tap_fd
                             (dupack_out (data d) (dupack_plus c n (int i)) (getTimestampVal (data p)))
                             (pkt_length d)) [Suc k..<unat n])"
    using Suc(1)[OF m] by (simp add: add.commute)
  show ?case
    by (subst dupack_burst.simps) (simp add: lt cd ih up)
qed

lemma word_of_int_sint32: "(word_of_int (sint (w :: u32)) :: u32) = w"
  by simp

lemma getACKSeq_ack: "tcp_ack buf (ip_ihl buf * 4) = 1 \<Longrightarrow>
    (word_of_int (getACKSeq buf) :: u32) = tcp_ack_seq buf (ip_ihl buf * 4)"
  by (simp add: getACKSeq_def)

lemma getACKSeq_noack: "tcp_ack buf (ip_ihl buf * 4) \<noteq> 1 \<Longrightarrow> (word_of_int (getACKSeq buf) :: u32) = - 1"
  by (simp add: getACKSeq_def)

lemma getTCPSeq_word: "(word_of_int (getTCPSeq buf) :: u32) = tcp_seq buf (ip_ihl buf * 4)"
  by (simp add: getTCPSeq_def)

lemma dupack_plus_exact:
  assumes c: "1 \<le> c" and r: "c * uint n < 2 ^ 31" and i: "0 \<le> i" "i < uint n"
  shows "dupack_plus c n i = c * uint n - uint n + i + 1"
    and "dupack_plus c n i = (c - 1) * uint n + i + 1"
    and "0 < dupack_plus c n i" and "dupack_plus c n i \<le> c * uint n"
proof -
  define v where "v = c * uint n - uint n + i + 1"
  have alt: "v = (c - 1) * uint n + i + 1" by (simp add: v_def algebra_simps)
  have "0 \<le> (c - 1) * uint n" using c by simp
  then have lo: "0 < v" using i alt by linarith
  have hi: "v \<le> c * uint n" using i by (simp add: v_def)
  have "dupack_plus c n i = int32 v"
    unfolding dupack_plus_def v_def by (simp only: int32_diff_left int32_add_left)
  also have "\<dots> = v" using lo hi r by (intro int32_id) linarith+
  finally have e: "dupack_plus c n i = v" .
  show "dupack_plus c n i = c * uint n - uint n + i + 1" using e by (simp add: v_def)
  show "dupack_plus c n i = (c - 1) * uint n + i + 1" using e alt by simp
  show "0 < dupack_plus c n i" using e lo by simp
  show "dupack_plus c n i \<le> c * uint n" using e hi by simp
qed

lemma dupack_plus_mono:
  assumes i: "i < unat n" "i' < unat n" and r1: "1 \<le> r" and r': "r' * uint n < 2 ^ 31"
    and ord: "r < r' \<or> (r = r' \<and> i < i')"
  shows "dupack_plus r n (int i) < dupack_plus r' n (int i')"
proof -
  have n: "int i < uint n" "int i' < uint n" using i by (simp_all only: int_less_uint)
  have le: "r \<le> r'" using ord by auto
  have "r * uint n \<le> r' * uint n" using le by (intro mult_right_mono) simp_all
  then have r: "r * uint n < 2 ^ 31" using r' by linarith
  have r'1: "1 \<le> r'" using r1 le by simp
  have e: "dupack_plus r n (int i) = r * uint n - uint n + int i + 1"
    using n by (intro dupack_plus_exact(1)[OF r1 r]) simp_all
  have e': "dupack_plus r' n (int i') = r' * uint n - uint n + int i' + 1"
    using n by (intro dupack_plus_exact(1)[OF r'1 r']) simp_all
  from ord show ?thesis
  proof
    assume "r < r'"
    then have "1 \<le> r' - r" by simp
    then have "1 * uint n \<le> (r' - r) * uint n" by (intro mult_right_mono) simp_all
    then have "r * uint n + uint n \<le> r' * uint n" by (simp add: algebra_simps)
    then show ?thesis using n unfolding e e' by linarith
  next
    assume "r = r' \<and> i < i'"
    then show ?thesis unfolding e e' by simp
  qed
qed

lemma int32_succ_ne_minus1:
  assumes "1 \<le> c" "c < 2 ^ 31"
  shows "int32 (c + 1) \<noteq> - 1"
proof (cases "c + 1 < 2 ^ 31")
  case True
  then have "int32 (c + 1) = c + 1" using assms by (intro int32_id) linarith+
  then show ?thesis using assms by simp
next
  case False
  then have "c + 1 = 2 ^ 31" using assms by simp
  then show ?thesis by (simp add: int32_def)
qed

subsection \<open>The example packets and states\<close>

lemma st_active_fields:
  "Qsock (st_active p) = qsock_with p"
  "Qtap (st_active p) = queue_init 100 ''Qtap''"
  "trigger_seq (st_active p) = 0x1000"
  "dupack (st_active p) = Ptr tmpl52"
  "in_backward_cc (st_active p) = 1"
  "pkt_count (st_active p) = 5"
  by (simp_all add: st_active_def main_init_def)

lemma dequeue_qsock_with: "dequeue_packet (qsock_with p) = Some (Ptr p, qsock_after p)"
  by (simp add: dequeue_packet_def qsock_with_def qsock_after_def isempty_def c_rem_def
      int32_numeral_simps ewma_def ewma_a_def Let_def)

lemma queue_inv_qsock_with:
  assumes "- (2 ^ 31) \<le> pkt_length p" "pkt_length p < 2 ^ 31"
  shows "queue_inv (qsock_with p)"
  using assms
  by (simp add: queue_inv_def qsock_with_def queued_def idx_def byte_sum_def int32_id)

lemma tmpl52_fields:
  "pkt_length tmpl52 = 52" "length (data tmpl52) = 1500"
  "ip_ihl (data tmpl52) = 5" "ip_tot_len (data tmpl52) = 52" "ip_protocol (data tmpl52) = 6"
  "ip_id (data tmpl52) = 0x1234"
  "CheckPureTCPAck (data tmpl52) = 1"
  by (simp_all add: tmpl52_def ip_ihl_def ip_tot_len_def ip_protocol_def ip_id_def be16_def
      CheckPureTCPAck_def tcp_doff_def tcp_ack_def tcp_urg_def tcp_psh_def tcp_rst_def tcp_syn_def
      tcp_fin_def tcp_flag_def Let_def)

lemma ack_low52_fields:
  "pkt_length ack_low52 = 52"
  "tcp_ack (data ack_low52) (ip_ihl (data ack_low52) * 4) = 1"
  "tcp_ack_seq (data ack_low52) (ip_ihl (data ack_low52) * 4) = 0x0F80"
  "getACKSeq (data ack_low52) = 0x0F80"
  "getTimestampVal (data ack_low52) = 2000"
  by (simp_all add: ack_low52_def ip_ihl_def getACKSeq_def getTimestampVal_def tcp_ack_def
      tcp_flag_def tcp_ack_seq_def ts_sts_def be32_def Let_def)

lemma ack_high52_fields:
  "pkt_length ack_high52 = 52"
  "tcp_ack (data ack_high52) (ip_ihl (data ack_high52) * 4) = 1"
  "tcp_ack_seq (data ack_high52) (ip_ihl (data ack_high52) * 4) = 0x1005"
  "getACKSeq (data ack_high52) = 0x1005"
  by (simp_all add: ack_high52_def ip_ihl_def getACKSeq_def tcp_ack_def
      tcp_flag_def tcp_ack_seq_def be32_def Let_def)

lemma rst40_fields:
  "pkt_length rst40 = 40"
  "tcp_ack (data rst40) (ip_ihl (data rst40) * 4) = 0"
  "tcp_rst (data rst40) (ip_ihl (data rst40) * 4) = 1"
  "tcp_ack_seq (data rst40) (ip_ihl (data rst40) * 4) = 0"
  "getACKSeq (data rst40) = - 1"
  by (simp_all add: rst40_def ip_ihl_def getACKSeq_def tcp_ack_def tcp_rst_def
      tcp_flag_def tcp_ack_seq_def be32_def Let_def)

lemma data_seq1000_fields:
  "pkt_length data_seq1000 = 60"
  "tcp_seq (data data_seq1000) (ip_ihl (data data_seq1000) * 4) = 0x1000"
  "getTCPSeq (data data_seq1000) = 0x1000"
  "CheckPureTCPAck (data data_seq1000) = 0"
  by (simp_all add: data_seq1000_def ip_ihl_def getTCPSeq_def tcp_seq_def be32_def Let_def
      CheckPureTCPAck_def ip_protocol_def tcp_ack_def tcp_urg_def tcp_psh_def tcp_flag_def)

lemma data_seqffffffff_fields:
  "pkt_length data_seqffffffff = 60"
  "tcp_seq (data data_seqffffffff) (ip_ihl (data data_seqffffffff) * 4) = 0xFFFFFFFF"
  "getTCPSeq (data data_seqffffffff) = - 1"
  by (simp_all add: data_seqffffffff_def ip_ihl_def getTCPSeq_def tcp_seq_def be32_def Let_def)

subsection \<open>The duplicate-ACK burst\<close>

text \<open>
  Claim C1. In the phase after the template capture (\<open>in_backward_cc \<ge> 1\<close>, the round),
  when the template \<open>d\<close> is an IPv4 packet without options (IHL 5) carrying TCP whose
  total length and recorded length are 52 (IPv4 header, TCP header and the Timestamp
  option), and \<open>in_backward_cc * pkt_count\<close> is in the range of \<open>int\<close>: when the packet
  dequeued from \<open>Qsock\<close> has an ACK number below \<open>trigger_seq\<close>, the slot writes exactly
  \<open>pkt_count\<close> buffers of 52 bytes to the tap and increments the round. The \<open>i\<close>-th
  buffer is what \<open>create_dupack\<close> returns for the template, the value \<open>plus\<close> that the
  loop computes, which is \<open>round * pkt_count - pkt_count + i + 1\<close>
  (\<open>= (round - 1) * pkt_count + i + 1\<close>), and the TSval of the dequeued packet; it has
  \<open>sizeof(iphdr) + sizeof(tcphdr) + sizeof(tshdr)\<close> bytes, the addresses, ports and ACK
  number of the template, the IP id of the template plus \<open>plus\<close> modulo 65536, the given
  TSval, and IP and TCP checksums that a receiver finds right. The values of \<open>plus\<close>
  that the loop computes increase strictly within a burst and from one round to the
  next, as long as \<open>round * pkt_count\<close> is in the range of \<open>int\<close>.
\<close>

theorem dupack_burst_postcondition:
  assumes active: "1 \<le> in_backward_cc st"
    and range: "in_backward_cc st * uint (pkt_count st) < 2 ^ 31"
    and tmpl: "dupack st = Ptr d"
    and deq: "dequeue_packet (Qsock st) = Some (Ptr packet, q)"
    and below: "word_of_int (getACKSeq (data packet)) < trigger_seq st"
    and len: "52 \<le> length (data d)"
    and ihl: "ip_ihl (data d) = 5"
    and tot: "ip_tot_len (data d) = 52"
    and proto: "ip_protocol (data d) = 6"
    and plen: "pkt_length d = 52"
  shows "\<exists>ptrs.
           on_FDTAP_OUT_OK st =
             Some (st\<lparr>Qsock := q, in_backward_cc := int32 (in_backward_cc st + 1)\<rparr>,
                   map (\<lambda>ptr. Cwrite tap_fd ptr 52) ptrs) \<and>
           length ptrs = unat (pkt_count st) \<and>
           (\<forall>i < unat (pkt_count st).
              create_dupack (data d) (dupack_plus (in_backward_cc st) (pkt_count st) (int i))
                  (getTimestampVal (data packet)) = Some (ptrs ! i) \<and>
              dupack_plus (in_backward_cc st) (pkt_count st) (int i)
                = in_backward_cc st * uint (pkt_count st) - uint (pkt_count st) + int i + 1 \<and>
              dupack_plus (in_backward_cc st) (pkt_count st) (int i)
                = (in_backward_cc st - 1) * uint (pkt_count st) + int i + 1 \<and>
              dupack_ok (data d) (dupack_plus (in_backward_cc st) (pkt_count st) (int i))
                  (getTimestampVal (data packet)) (ptrs ! i)) \<and>
           (\<forall>r r' i i'. 1 \<le> r \<and> r' * uint (pkt_count st) < 2 ^ 31 \<and>
                         i < unat (pkt_count st) \<and> i' < unat (pkt_count st) \<and>
                         (r < r' \<or> (r = r' \<and> i < i'))
               \<longrightarrow> dupack_plus r (pkt_count st) (int i) < dupack_plus r' (pkt_count st) (int i'))"
proof -
  define c where "c = in_backward_cc st"
  define n where "n = pkt_count st"
  define ts where "ts = getTimestampVal (data packet)"
  define ptrs where "ptrs = map (\<lambda>i. dupack_out (data d) (dupack_plus c n (int i)) ts) [0..<unat n]"
  have c3: "c \<noteq> - 3" "c > - 1" "c \<noteq> 0" using active by (simp_all add: c_def)
  have c1: "1 \<le> c" and cr: "c * uint n < 2 ^ 31" using active range by (simp_all add: c_def n_def)
  have nt: "\<not> trigger_seq st \<le> word_of_int (getACKSeq (data packet))"
    using below by (simp add: not_le)
  have b: "dupack_burst d packet c n 0 = Some (map (\<lambda>ptr. Cwrite tap_fd ptr 52) ptrs)"
    using dupack_burst_eq[OF len, of packet c n 0] by (simp add: ptrs_def ts_def plen comp_def)
  have run: "on_FDTAP_OUT_OK st =
             Some (st\<lparr>Qsock := q, in_backward_cc := int32 (in_backward_cc st + 1)\<rparr>,
                   map (\<lambda>ptr. Cwrite tap_fd ptr 52) ptrs)"
    unfolding on_FDTAP_OUT_OK_def Let_def
    using c3 nt b by (simp add: c_def[symmetric] n_def[symmetric] deq tmpl)
  have l: "length ptrs = unat (pkt_count st)" by (simp add: ptrs_def n_def)
  have each: "\<forall>i < unat (pkt_count st).
              create_dupack (data d) (dupack_plus (in_backward_cc st) (pkt_count st) (int i))
                  (getTimestampVal (data packet)) = Some (ptrs ! i) \<and>
              dupack_plus (in_backward_cc st) (pkt_count st) (int i)
                = in_backward_cc st * uint (pkt_count st) - uint (pkt_count st) + int i + 1 \<and>
              dupack_plus (in_backward_cc st) (pkt_count st) (int i)
                = (in_backward_cc st - 1) * uint (pkt_count st) + int i + 1 \<and>
              dupack_ok (data d) (dupack_plus (in_backward_cc st) (pkt_count st) (int i))
                  (getTimestampVal (data packet)) (ptrs ! i)"
  proof (intro allI impI)
    fix i assume i: "i < unat (pkt_count st)"
    then have p: "ptrs ! i = dupack_out (data d) (dupack_plus c n (int i)) ts"
      by (simp add: ptrs_def n_def)
    have ii: "0 \<le> int i" "int i < uint n" using i by (simp_all add: int_less_uint n_def)
    note e = dupack_plus_exact(1,2)[OF c1 cr ii]
    show "create_dupack (data d) (dupack_plus (in_backward_cc st) (pkt_count st) (int i))
                  (getTimestampVal (data packet)) = Some (ptrs ! i) \<and>
          dupack_plus (in_backward_cc st) (pkt_count st) (int i)
                = in_backward_cc st * uint (pkt_count st) - uint (pkt_count st) + int i + 1 \<and>
          dupack_plus (in_backward_cc st) (pkt_count st) (int i)
                = (in_backward_cc st - 1) * uint (pkt_count st) + int i + 1 \<and>
          dupack_ok (data d) (dupack_plus (in_backward_cc st) (pkt_count st) (int i))
                  (getTimestampVal (data packet)) (ptrs ! i)"
      unfolding p c_def[symmetric] n_def[symmetric] ts_def[symmetric]
      using create_dupack_ok[OF len ihl tot proto, of "dupack_plus c n (int i)" ts] e
      by simp
  qed
  have mono: "\<forall>r r' i i'. 1 \<le> r \<and> r' * uint (pkt_count st) < 2 ^ 31 \<and>
                         i < unat (pkt_count st) \<and> i' < unat (pkt_count st) \<and>
                         (r < r' \<or> (r = r' \<and> i < i'))
               \<longrightarrow> dupack_plus r (pkt_count st) (int i) < dupack_plus r' (pkt_count st) (int i')"
    using dupack_plus_mono by blast
  show ?thesis using run l each mono by blast
qed

theorem dupack_burst_postcondition_witness:
  "1 \<le> in_backward_cc (st_active ack_low52) \<and>
   in_backward_cc (st_active ack_low52) * uint (pkt_count (st_active ack_low52)) < 2 ^ 31 \<and>
   dupack (st_active ack_low52) = Ptr tmpl52 \<and>
   dequeue_packet (Qsock (st_active ack_low52)) = Some (Ptr ack_low52, qsock_after ack_low52) \<and>
   (word_of_int (getACKSeq (data ack_low52)) :: u32) < trigger_seq (st_active ack_low52) \<and>
   52 \<le> length (data tmpl52) \<and> ip_ihl (data tmpl52) = 5 \<and> ip_tot_len (data tmpl52) = 52 \<and>
   ip_protocol (data tmpl52) = 6 \<and> pkt_length tmpl52 = 52 \<and>
   (\<exists>ptrs.
      on_FDTAP_OUT_OK (st_active ack_low52) =
        Some ((st_active ack_low52)\<lparr>Qsock := qsock_after ack_low52, in_backward_cc := 2\<rparr>,
              map (\<lambda>ptr. Cwrite tap_fd ptr 52) ptrs) \<and>
      length ptrs = 5 \<and>
      (\<forall>i < 5.
         create_dupack (data tmpl52) (int i + 1) 2000 = Some (ptrs ! i) \<and>
         dupack_plus 1 5 (int i) = int i + 1 \<and>
         dupack_ok (data tmpl52) (int i + 1) 2000 (ptrs ! i)))"
proof -
  have h1: "1 \<le> in_backward_cc (st_active ack_low52)" by (simp add: st_active_fields)
  have h1': "in_backward_cc (st_active ack_low52) * uint (pkt_count (st_active ack_low52)) < 2 ^ 31"
    by (simp add: st_active_fields)
  have h2: "dupack (st_active ack_low52) = Ptr tmpl52" by (simp add: st_active_fields)
  have h3: "dequeue_packet (Qsock (st_active ack_low52)) = Some (Ptr ack_low52, qsock_after ack_low52)"
    by (simp add: st_active_fields dequeue_qsock_with)
  have h4: "(word_of_int (getACKSeq (data ack_low52)) :: u32) < trigger_seq (st_active ack_low52)"
    by (simp add: st_active_fields ack_low52_fields)
  have h5: "52 \<le> length (data tmpl52)" by (simp add: tmpl52_fields)
  note h6 = tmpl52_fields(3) and h7 = tmpl52_fields(4) and h8 = tmpl52_fields(5)
    and h9 = tmpl52_fields(1)
  from dupack_burst_postcondition[OF h1 h1' h2 h3 h4 h5 h6 h7 h8 h9] obtain ptrs where
    r: "on_FDTAP_OUT_OK (st_active ack_low52) =
          Some ((st_active ack_low52)\<lparr>Qsock := qsock_after ack_low52,
                  in_backward_cc := int32 (in_backward_cc (st_active ack_low52) + 1)\<rparr>,
                map (\<lambda>ptr. Cwrite tap_fd ptr 52) ptrs)"
    and l: "length ptrs = unat (pkt_count (st_active ack_low52))"
    and e: "\<forall>i < unat (pkt_count (st_active ack_low52)).
              create_dupack (data tmpl52)
                  (dupack_plus (in_backward_cc (st_active ack_low52)) (pkt_count (st_active ack_low52)) (int i))
                  (getTimestampVal (data ack_low52)) = Some (ptrs ! i) \<and>
              dupack_plus (in_backward_cc (st_active ack_low52)) (pkt_count (st_active ack_low52)) (int i)
                = in_backward_cc (st_active ack_low52) * uint (pkt_count (st_active ack_low52))
                    - uint (pkt_count (st_active ack_low52)) + int i + 1 \<and>
              dupack_plus (in_backward_cc (st_active ack_low52)) (pkt_count (st_active ack_low52)) (int i)
                = (in_backward_cc (st_active ack_low52) - 1) * uint (pkt_count (st_active ack_low52))
                    + int i + 1 \<and>
              dupack_ok (data tmpl52)
                  (dupack_plus (in_backward_cc (st_active ack_low52)) (pkt_count (st_active ack_low52)) (int i))
                  (getTimestampVal (data ack_low52)) (ptrs ! i)"
    by blast
  have r': "on_FDTAP_OUT_OK (st_active ack_low52) =
        Some ((st_active ack_low52)\<lparr>Qsock := qsock_after ack_low52, in_backward_cc := 2\<rparr>,
              map (\<lambda>ptr. Cwrite tap_fd ptr 52) ptrs)"
    using r by (simp add: st_active_fields int32_numeral_simps)
  have l': "length ptrs = 5" using l by (simp add: st_active_fields)
  have e': "\<forall>i < 5.
         create_dupack (data tmpl52) (int i + 1) 2000 = Some (ptrs ! i) \<and>
         dupack_plus 1 5 (int i) = int i + 1 \<and>
         dupack_ok (data tmpl52) (int i + 1) 2000 (ptrs ! i)"
  proof (intro allI impI)
    fix i :: nat assume i: "i < 5"
    then have "i < unat (pkt_count (st_active ack_low52))" by (simp add: st_active_fields)
    with e have
      a: "create_dupack (data tmpl52)
            (dupack_plus (in_backward_cc (st_active ack_low52)) (pkt_count (st_active ack_low52)) (int i))
            (getTimestampVal (data ack_low52)) = Some (ptrs ! i)"
      and b: "dupack_plus (in_backward_cc (st_active ack_low52)) (pkt_count (st_active ack_low52)) (int i)
                = (in_backward_cc (st_active ack_low52) - 1) * uint (pkt_count (st_active ack_low52))
                    + int i + 1"
      and c: "dupack_ok (data tmpl52)
            (dupack_plus (in_backward_cc (st_active ack_low52)) (pkt_count (st_active ack_low52)) (int i))
            (getTimestampVal (data ack_low52)) (ptrs ! i)"
      by blast+
    have p: "dupack_plus 1 5 (int i) = int i + 1" using b by (simp add: st_active_fields)
    show "create_dupack (data tmpl52) (int i + 1) 2000 = Some (ptrs ! i) \<and>
         dupack_plus 1 5 (int i) = int i + 1 \<and>
         dupack_ok (data tmpl52) (int i + 1) 2000 (ptrs ! i)"
      using a c p by (simp add: st_active_fields ack_low52_fields)
  qed
  show ?thesis using h1 h1' h2 h3 h4 h5 h6 h7 h8 h9 r' l' e' by blast
qed

text \<open>
  The burst of the example state: with \<open>pkt_count = 5\<close> in round 1, the template
  \<open>tmpl52\<close> (IP id \<open>0x1234\<close>) and the dequeued packet \<open>ack_low52\<close> (TSval 2000), the
  slot writes five packets of 52 bytes with the IP ids \<open>0x1235\<close> to \<open>0x1239\<close> and TSval
  2000, whose checksums a receiver finds right.
\<close>

lemma spoof_burst_scenario:
  "on_FDTAP_OUT_OK (st_active ack_low52)
     = Some ((st_active ack_low52)\<lparr>Qsock := qsock_after ack_low52, in_backward_cc := 2\<rparr>,
             [Cwrite tap_fd (dupack52 0x35 0x8D) 52, Cwrite tap_fd (dupack52 0x36 0x8C) 52,
              Cwrite tap_fd (dupack52 0x37 0x8B) 52, Cwrite tap_fd (dupack52 0x38 0x8A) 52,
              Cwrite tap_fd (dupack52 0x39 0x89) 52]) \<and>
   map ip_id [dupack52 0x35 0x8D, dupack52 0x36 0x8C, dupack52 0x37 0x8B, dupack52 0x38 0x8A,
              dupack52 0x39 0x89] = [0x1235, 0x1236, 0x1237, 0x1238, 0x1239] \<and>
   getTimestampVal (dupack52 0x35 0x8D) = 2000 \<and>
   ip_checksum_ok (dupack52 0x35 0x8D) \<and> tcp_checksum_ok (dupack52 0x35 0x8D) \<and>
   ip_checksum_ok (dupack52 0x39 0x89) \<and> tcp_checksum_ok (dupack52 0x39 0x89)"
  by code_simp

text \<open>
  The statement fails for a template of another layout. \<open>ack40pkt\<close> is a pure ACK of 40
  bytes without the Timestamp option; \<open>CheckPureTCPAck\<close> accepts it, so in phase 0 it
  becomes the template. After \<open>ack_low52\<close> (ACK number \<open>0x0F80\<close>, below \<open>trigger_seq\<close>)
  arrived on the socket, the next slot writes five times 40 bytes of a 52-byte buffer
  whose total length field is still 40 and whose TCP checksum was computed over 32 bytes
  of TCP segment: a receiver finds the TCP checksum wrong. And the value \<open>plus\<close> that the
  loop computes does not increase where \<open>round * pkt_count\<close> leaves the range of \<open>int\<close>.
\<close>

theorem dupack_burst_template_without_timestamp:
  "CheckPureTCPAck (data ack40pkt) = 1 \<and>
   on_FDTAP_OUT_OK (st_wait ack40pkt)
     = Some (st_tmpl40 (qsock_after ack40pkt), [Cwrite tap_fd (data ack40pkt) 40]) \<and>
   on_FDSOCK_IN_RDY (st_tmpl40 (qsock_after ack40pkt)) ack_low52
     = (st_tmpl40 (qsock_second ack40pkt ack_low52), []) \<and>
   in_backward_cc (st_tmpl40 (qsock_second ack40pkt ack_low52)) = 1 \<and>
   pkt_count (st_tmpl40 (qsock_second ack40pkt ack_low52)) = 5 \<and>
   trigger_seq (st_tmpl40 (qsock_second ack40pkt ack_low52)) = 0x1000 \<and>
   getACKSeq (data ack_low52) = 0x0F80 \<and>
   on_FDTAP_OUT_OK (st_tmpl40 (qsock_second ack40pkt ack_low52))
     = Some ((st_tmpl40 (qsock_second_after ack40pkt ack_low52))\<lparr>in_backward_cc := 2\<rparr>,
             [Cwrite tap_fd (dupack40 0x35 0x99) 40, Cwrite tap_fd (dupack40 0x36 0x98) 40,
              Cwrite tap_fd (dupack40 0x37 0x97) 40, Cwrite tap_fd (dupack40 0x38 0x96) 40,
              Cwrite tap_fd (dupack40 0x39 0x95) 40]) \<and>
   create_dupack (data ack40pkt) 1 2000 = Some (dupack40 0x35 0x99) \<and>
   length (dupack40 0x35 0x99) = 52 \<and>
   ip_tot_len (dupack40 0x35 0x99) = 40 \<and>
   \<not> tcp_checksum_ok (dupack40 0x35 0x99) \<and>
   \<not> tcp_checksum_ok (dupack40 0x36 0x98) \<and>
   \<not> tcp_checksum_ok (dupack40 0x37 0x97) \<and>
   \<not> tcp_checksum_ok (dupack40 0x38 0x96) \<and>
   \<not> tcp_checksum_ok (dupack40 0x39 0x95) \<and>
   \<not> dupack_ok (data ack40pkt) 1 2000 (dupack40 0x35 0x99) \<and>
   dupack_plus 32769 65535 65534 < dupack_plus 32769 65535 0"
  by code_simp

subsection \<open>The end of an episode\<close>

text \<open>
  What holds of the claim about the end of an episode: for a dequeued packet whose ACK
  flag is set, with \<open>trigger_seq\<close> set, the episode ends exactly if the ACK number is
  at least \<open>trigger_seq\<close> (compared as unsigned 32-bit numbers). Then the packet is
  written to the tap as received, the template is freed, \<open>trigger_seq\<close> and
  \<open>pkt_count\<close> are reset and \<open>in_backward_cc\<close> is \<open>-1\<close> again. Otherwise the burst is
  written and the phase stays (\<open>in_backward_cc\<close> is not \<open>-1\<close>).
\<close>

lemma episode_ends_on_covering_ack:
  assumes active: "1 \<le> in_backward_cc st" and range: "in_backward_cc st < 2 ^ 31"
    and tmpl: "dupack st = Ptr d"
    and set: "trigger_seq st \<noteq> - 1"
    and deq: "dequeue_packet (Qsock st) = Some (Ptr packet, q)"
    and ackflag: "tcp_ack (data packet) (ip_ihl (data packet) * 4) = 1"
    and len: "52 \<le> length (data d)"
  shows "(trigger_seq st \<le> tcp_ack_seq (data packet) (ip_ihl (data packet) * 4) \<longrightarrow>
            on_FDTAP_OUT_OK st =
              Some (st\<lparr>Qsock := q, trigger_seq := - 1, in_backward_cc := - 1, pkt_count := 0\<rparr>,
                    [Cwrite tap_fd (data packet) (pkt_length packet), Free d])) \<and>
         (tcp_ack_seq (data packet) (ip_ihl (data packet) * 4) < trigger_seq st \<longrightarrow>
            on_FDTAP_OUT_OK st =
              Some (st\<lparr>Qsock := q, in_backward_cc := int32 (in_backward_cc st + 1)\<rparr>,
                    map (\<lambda>i. Cwrite tap_fd
                               (dupack_out (data d) (dupack_plus (in_backward_cc st) (pkt_count st) (int i))
                                  (getTimestampVal (data packet)))
                               (pkt_length d))
                        [0..<unat (pkt_count st)]) \<and>
            int32 (in_backward_cc st + 1) \<noteq> - 1)"
proof (intro conjI impI)
  have c3: "in_backward_cc st \<noteq> - 3" "in_backward_cc st > - 1" "in_backward_cc st \<noteq> 0"
    using active by simp_all
  note a = getACKSeq_ack[OF ackflag]
  {
    assume "trigger_seq st \<le> tcp_ack_seq (data packet) (ip_ihl (data packet) * 4)"
    then show "on_FDTAP_OUT_OK st =
              Some (st\<lparr>Qsock := q, trigger_seq := - 1, in_backward_cc := - 1, pkt_count := 0\<rparr>,
                    [Cwrite tap_fd (data packet) (pkt_length packet), Free d])"
      unfolding on_FDTAP_OUT_OK_def Let_def using c3 set by (simp add: deq tmpl a)
  }
  {
    assume "tcp_ack_seq (data packet) (ip_ihl (data packet) * 4) < trigger_seq st"
    then have nt: "\<not> trigger_seq st \<le> tcp_ack_seq (data packet) (ip_ihl (data packet) * 4)"
      by (simp add: not_le)
    show "on_FDTAP_OUT_OK st =
              Some (st\<lparr>Qsock := q, in_backward_cc := int32 (in_backward_cc st + 1)\<rparr>,
                    map (\<lambda>i. Cwrite tap_fd
                               (dupack_out (data d) (dupack_plus (in_backward_cc st) (pkt_count st) (int i))
                                  (getTimestampVal (data packet)))
                               (pkt_length d))
                        [0..<unat (pkt_count st)])"
      unfolding on_FDTAP_OUT_OK_def Let_def
      using c3 nt dupack_burst_eq[OF len, of packet "in_backward_cc st" "pkt_count st" 0]
      by (simp add: deq tmpl a)
    show "int32 (in_backward_cc st + 1) \<noteq> - 1" by (rule int32_succ_ne_minus1[OF active range])
  }
qed

text \<open>
  Claim C2. The episode does not end only on a packet whose ACK number is at least
  \<open>trigger_seq\<close>. With \<open>trigger_seq = 0x1000\<close> and \<open>in_backward_cc = 1\<close>, the packet
  \<open>rst40\<close> is dequeued: its ACK flag is clear and its ACK number field is 0, below
  \<open>trigger_seq\<close>. \<open>getACKSeq\<close> returns \<open>-1\<close> for it, which the comparison with the
  \<open>unsigned int trigger_seq\<close> converts to \<open>0xFFFFFFFF\<close>; the episode ends: the packet
  is written to the tap, the template is freed, \<open>trigger_seq\<close> becomes \<open>0xFFFFFFFF\<close>
  (unset), \<open>in_backward_cc\<close> becomes \<open>-1\<close> and \<open>pkt_count\<close> 0.
\<close>

theorem episode_ends_on_packet_without_ack:
  "tcp_ack (data rst40) (ip_ihl (data rst40) * 4) = 0 \<and>
   tcp_ack_seq (data rst40) (ip_ihl (data rst40) * 4) = 0 \<and>
   getACKSeq (data rst40) = - 1 \<and>
   trigger_seq (st_active rst40) = 0x1000 \<and>
   in_backward_cc (st_active rst40) = 1 \<and>
   dequeue_packet (Qsock (st_active rst40)) = Some (Ptr rst40, qsock_after rst40) \<and>
   on_FDTAP_OUT_OK (st_active rst40) =
     Some ((st_active rst40)\<lparr>Qsock := qsock_after rst40, trigger_seq := 0xFFFFFFFF,
                               in_backward_cc := - 1, pkt_count := 0\<rparr>,
           [Cwrite tap_fd (data rst40) 40, Free tmpl52])"
  by (simp add: on_FDTAP_OUT_OK_def Let_def st_active_fields dequeue_qsock_with rst40_fields)

subsection \<open>Suppression of the retransmission\<close>

text \<open>
  Claim C3. While \<open>trigger_seq\<close> is set, in whatever phase, a packet read from the tap
  whose TCP sequence number equals \<open>trigger_seq\<close> is freed and \<open>Qtap\<close> stays as it is.
  When the episode then ends (the packet dequeued from \<open>Qsock\<close> in the phase after the
  template capture has an ACK number of at least \<open>trigger_seq\<close>), \<open>trigger_seq\<close> is
  unset, and the same tap packet is now appended to \<open>Qtap\<close> (which is a queue in a
  consistent state and not full) and not freed.
\<close>

theorem retransmission_suppression:
  assumes seq: "tcp_seq (data packet) (ip_ihl (data packet) * 4) = trigger_seq st"
    and set: "trigger_seq st \<noteq> - 1"
  shows "Qtap (fst (on_FDTAP_IN_RDY st packet)) = Qtap st \<and>
         snd (on_FDTAP_IN_RDY st packet) = [Free packet] \<and>
         (1 \<le> in_backward_cc st \<and> dupack st = Ptr d \<and>
          dequeue_packet (Qsock st) = Some (Ptr ackpkt, q) \<and>
          trigger_seq st \<le> word_of_int (getACKSeq (data ackpkt)) \<and>
          queue_inv (Qtap st) \<and>
          (rear (Qtap st) + 1) mod buffer_size (Qtap st) \<noteq> front (Qtap st) \<longrightarrow>
          (\<exists>st' eff. on_FDTAP_OUT_OK st = Some (st', eff) \<and> trigger_seq st' = - 1 \<and>
             in_backward_cc st' = - 1 \<and>
             queued (Qtap (fst (on_FDTAP_IN_RDY st' packet))) = queued (Qtap st) @ [Ptr packet] \<and>
             snd (on_FDTAP_IN_RDY st' packet) = []))"
proof (intro conjI impI)
  have m: "(word_of_int (getTCPSeq (data packet)) :: u32) = trigger_seq st"
    using seq by (simp add: getTCPSeq_word)
  show "Qtap (fst (on_FDTAP_IN_RDY st packet)) = Qtap st"
    unfolding on_FDTAP_IN_RDY_def Let_def using m by (simp add: split_def)
  show "snd (on_FDTAP_IN_RDY st packet) = [Free packet]"
    unfolding on_FDTAP_IN_RDY_def Let_def using m by (simp add: split_def)
  assume a: "1 \<le> in_backward_cc st \<and> dupack st = Ptr d \<and>
          dequeue_packet (Qsock st) = Some (Ptr ackpkt, q) \<and>
          trigger_seq st \<le> word_of_int (getACKSeq (data ackpkt)) \<and>
          queue_inv (Qtap st) \<and>
          (rear (Qtap st) + 1) mod buffer_size (Qtap st) \<noteq> front (Qtap st)"
  then have active: "1 \<le> in_backward_cc st" and tmpl: "dupack st = Ptr d"
    and deq: "dequeue_packet (Qsock st) = Some (Ptr ackpkt, q)"
    and cover: "trigger_seq st \<le> word_of_int (getACKSeq (data ackpkt))"
    and inv: "queue_inv (Qtap st)"
    and room: "(rear (Qtap st) + 1) mod buffer_size (Qtap st) \<noteq> front (Qtap st)"
    by simp_all
  have c3: "in_backward_cc st \<noteq> - 3" "in_backward_cc st > - 1" "in_backward_cc st \<noteq> 0"
    "in_backward_cc st \<noteq> - 1"
    using active by simp_all
  define st' where "st' = st\<lparr>Qsock := q, trigger_seq := - 1, in_backward_cc := - 1, pkt_count := 0\<rparr>"
  have step: "on_FDTAP_OUT_OK st = Some (st', [Cwrite tap_fd (data ackpkt) (pkt_length ackpkt), Free d])"
    unfolding on_FDTAP_OUT_OK_def Let_def st'_def using c3 set cover by (simp add: deq tmpl)
  have sel: "Qtap st' = Qtap st" "trigger_seq st' = - 1" "in_backward_cc st' = - 1"
    by (simp_all add: st'_def)
  have nm: "(word_of_int (getTCPSeq (data packet)) :: u32) \<noteq> trigger_seq st'"
    using m set sel by simp
  note e = enqueue_ok[OF inv room, of packet]
  obtain r q1 where eq: "enqueue_packet (Qtap st) packet = (r, q1)"
    by (cases "enqueue_packet (Qtap st) packet")
  have r: "r = 1" and q1: "queued q1 = queued (Qtap st) @ [Ptr packet]" using e eq by simp_all
  have after: "Qtap (fst (on_FDTAP_IN_RDY st' packet)) = q1 \<and> snd (on_FDTAP_IN_RDY st' packet) = []"
    unfolding on_FDTAP_IN_RDY_def Let_def using nm sel eq r by (simp add: split_def)
  show "\<exists>st' eff. on_FDTAP_OUT_OK st = Some (st', eff) \<and> trigger_seq st' = - 1 \<and>
             in_backward_cc st' = - 1 \<and>
             queued (Qtap (fst (on_FDTAP_IN_RDY st' packet))) = queued (Qtap st) @ [Ptr packet] \<and>
             snd (on_FDTAP_IN_RDY st' packet) = []"
    using step sel after q1 by auto
qed

theorem retransmission_suppression_witness:
  "tcp_seq (data data_seq1000) (ip_ihl (data data_seq1000) * 4) = trigger_seq (st_active ack_high52) \<and>
   trigger_seq (st_active ack_high52) \<noteq> - 1 \<and>
   Qtap (fst (on_FDTAP_IN_RDY (st_active ack_high52) data_seq1000)) = Qtap (st_active ack_high52) \<and>
   snd (on_FDTAP_IN_RDY (st_active ack_high52) data_seq1000) = [Free data_seq1000] \<and>
   1 \<le> in_backward_cc (st_active ack_high52) \<and> dupack (st_active ack_high52) = Ptr tmpl52 \<and>
   dequeue_packet (Qsock (st_active ack_high52)) = Some (Ptr ack_high52, qsock_after ack_high52) \<and>
   trigger_seq (st_active ack_high52) \<le> word_of_int (getACKSeq (data ack_high52)) \<and>
   queue_inv (Qtap (st_active ack_high52)) \<and>
   (rear (Qtap (st_active ack_high52)) + 1) mod buffer_size (Qtap (st_active ack_high52))
     \<noteq> front (Qtap (st_active ack_high52)) \<and>
   (\<exists>st' eff. on_FDTAP_OUT_OK (st_active ack_high52) = Some (st', eff) \<and> trigger_seq st' = - 1 \<and>
      in_backward_cc st' = - 1 \<and>
      queued (Qtap (fst (on_FDTAP_IN_RDY st' data_seq1000))) = [Ptr data_seq1000] \<and>
      snd (on_FDTAP_IN_RDY st' data_seq1000) = [])"
proof -
  have h1: "tcp_seq (data data_seq1000) (ip_ihl (data data_seq1000) * 4) = trigger_seq (st_active ack_high52)"
    by (simp add: st_active_fields data_seq1000_fields)
  have h2: "trigger_seq (st_active ack_high52) \<noteq> - 1" by (simp add: st_active_fields)
  have a1: "1 \<le> in_backward_cc (st_active ack_high52)" by (simp add: st_active_fields)
  have a2: "dupack (st_active ack_high52) = Ptr tmpl52" by (simp add: st_active_fields)
  have a3: "dequeue_packet (Qsock (st_active ack_high52)) = Some (Ptr ack_high52, qsock_after ack_high52)"
    by (simp add: st_active_fields dequeue_qsock_with)
  have a4: "trigger_seq (st_active ack_high52) \<le> word_of_int (getACKSeq (data ack_high52))"
    by (simp add: st_active_fields ack_high52_fields)
  have a5: "queue_inv (Qtap (st_active ack_high52))"
    using queue_inv_init(1)[of 100 "''Qtap''"] by (simp add: st_active_fields)
  have a6: "(rear (Qtap (st_active ack_high52)) + 1) mod buffer_size (Qtap (st_active ack_high52))
     \<noteq> front (Qtap (st_active ack_high52))"
    by (simp add: st_active_fields queue_init_def)
  have e: "queued (Qtap (st_active ack_high52)) = []"
    using queue_inv_init(2)[of 100 "''Qtap''"] by (simp add: st_active_fields)
  note t = retransmission_suppression[OF h1 h2, where d = tmpl52 and ackpkt = ack_high52
      and q = "qsock_after ack_high52"]
  from t have t1: "Qtap (fst (on_FDTAP_IN_RDY (st_active ack_high52) data_seq1000)) = Qtap (st_active ack_high52)"
    and t2: "snd (on_FDTAP_IN_RDY (st_active ack_high52) data_seq1000) = [Free data_seq1000]"
    by simp_all
  from t a1 a2 a3 a4 a5 a6 have t3: "\<exists>st' eff. on_FDTAP_OUT_OK (st_active ack_high52) = Some (st', eff) \<and> trigger_seq st' = - 1 \<and>
      in_backward_cc st' = - 1 \<and>
      queued (Qtap (fst (on_FDTAP_IN_RDY st' data_seq1000))) = [Ptr data_seq1000] \<and>
      snd (on_FDTAP_IN_RDY st' data_seq1000) = []"
    unfolding e by simp
  show ?thesis using h1 h2 t1 t2 a1 a2 a3 a4 a5 a6 t3 by blast
qed

subsection \<open>The sequence number \<open>0xFFFFFFFF\<close> while no trigger is set\<close>

text \<open>
  Claim C9. While \<open>trigger_seq\<close> is unset (it holds the \<open>unsigned int\<close> value of
  \<open>-1\<close>, \<open>0xFFFFFFFF\<close>), a packet read from the tap whose TCP sequence number is
  \<open>0xFFFFFFFF\<close> is freed and \<open>Qtap\<close> stays as it is: \<open>getTCPSeq\<close> returns \<open>-1\<close> for
  it, and the comparison with \<open>trigger_seq\<close> converts that to \<open>0xFFFFFFFF\<close>.
\<close>

theorem unset_trigger_drops_seq_ffffffff:
  assumes unset: "trigger_seq st = - 1"
    and seq: "tcp_seq (data packet) (ip_ihl (data packet) * 4) = 0xFFFFFFFF"
  shows "getTCPSeq (data packet) = - 1 \<and>
         Qtap (fst (on_FDTAP_IN_RDY st packet)) = Qtap st \<and>
         snd (on_FDTAP_IN_RDY st packet) = [Free packet]"
proof -
  have g: "getTCPSeq (data packet) = - 1" using seq by (simp add: getTCPSeq_def)
  have m: "(word_of_int (getTCPSeq (data packet)) :: u32) = trigger_seq st"
    using g unset by simp
  show ?thesis
    unfolding on_FDTAP_IN_RDY_def Let_def using m g by (simp add: split_def)
qed

theorem unset_trigger_drops_seq_ffffffff_witness:
  "trigger_seq main_init = - 1 \<and>
   tcp_seq (data data_seqffffffff) (ip_ihl (data data_seqffffffff) * 4) = 0xFFFFFFFF \<and>
   getTCPSeq (data data_seqffffffff) = - 1 \<and>
   Qtap (fst (on_FDTAP_IN_RDY main_init data_seqffffffff)) = Qtap main_init \<and>
   snd (on_FDTAP_IN_RDY main_init data_seqffffffff) = [Free data_seqffffffff]"
proof -
  have h1: "trigger_seq main_init = - 1" by (simp add: main_init_def)
  note h2 = data_seqffffffff_fields(2)
  show ?thesis
    using unset_trigger_drops_seq_ffffffff[OF h1 h2] h1 h2 by simp
qed

subsection \<open>Packets other than pure ACKs while the template is awaited\<close>

text \<open>
  Claim C10. In phase 0 (\<open>in_backward_cc\<close> is 0, or is \<open>-3\<close> and becomes 0 at the
  start of the slot), a packet dequeued from \<open>Qsock\<close> that is not a pure ACK leaves
  the queue (it was the oldest queued packet and is not queued afterwards), and the slot
  has no effect at all: nothing is written to the tap and the packet is not freed. The
  state changes only in \<open>Qsock\<close> (and in the phase, if it was \<open>-3\<close>); no variable keeps
  the packet.
\<close>

theorem non_pure_ack_discarded:
  assumes phase: "in_backward_cc st = 0 \<or> in_backward_cc st = - 3"
    and inv: "queue_inv (Qsock st)"
    and deq: "dequeue_packet (Qsock st) = Some (Ptr packet, q)"
    and npa: "CheckPureTCPAck (data packet) \<noteq> 1"
  shows "on_FDTAP_OUT_OK st = Some (st\<lparr>in_backward_cc := 0, Qsock := q\<rparr>, []) \<and>
         queued (Qsock st) = Ptr packet # queued q"
proof -
  have run: "on_FDTAP_OUT_OK st = Some (st\<lparr>in_backward_cc := 0, Qsock := q\<rparr>, [])"
    using phase
  proof
    assume "in_backward_cc st = 0"
    then show ?thesis unfolding on_FDTAP_OUT_OK_def Let_def using npa by (simp add: deq)
  next
    assume "in_backward_cc st = - 3"
    then show ?thesis unfolding on_FDTAP_OUT_OK_def Let_def using npa by (simp add: deq)
  qed
  have ne: "front (Qsock st) \<noteq> rear (Qsock st)"
    using deq dequeue_empty(1)[OF inv] by auto
  from dequeue_ok[OF inv ne] deq have "queued (Qsock st) = Ptr packet # queued q" by auto
  then show ?thesis using run by simp
qed

theorem non_pure_ack_discarded_witness:
  "in_backward_cc ((st_active data_seq1000)\<lparr>dupack := Wild, in_backward_cc := 0\<rparr>) = 0 \<and>
   queue_inv (Qsock ((st_active data_seq1000)\<lparr>dupack := Wild, in_backward_cc := 0\<rparr>)) \<and>
   dequeue_packet (Qsock ((st_active data_seq1000)\<lparr>dupack := Wild, in_backward_cc := 0\<rparr>))
     = Some (Ptr data_seq1000, qsock_after data_seq1000) \<and>
   CheckPureTCPAck (data data_seq1000) \<noteq> 1 \<and>
   on_FDTAP_OUT_OK ((st_active data_seq1000)\<lparr>dupack := Wild, in_backward_cc := 0\<rparr>)
     = Some ((st_active data_seq1000)\<lparr>dupack := Wild, in_backward_cc := 0,
                                        Qsock := qsock_after data_seq1000\<rparr>, []) \<and>
   queued (Qsock ((st_active data_seq1000)\<lparr>dupack := Wild, in_backward_cc := 0\<rparr>))
     = Ptr data_seq1000 # queued (qsock_after data_seq1000)"
proof -
  define S where "S = (st_active data_seq1000)\<lparr>dupack := Wild, in_backward_cc := 0\<rparr>"
  have h1: "in_backward_cc S = 0 \<or> in_backward_cc S = - 3" by (simp add: S_def)
  have h2: "queue_inv (Qsock S)"
    by (simp add: S_def st_active_fields queue_inv_qsock_with data_seq1000_fields)
  have h3: "dequeue_packet (Qsock S) = Some (Ptr data_seq1000, qsock_after data_seq1000)"
    by (simp add: S_def st_active_fields dequeue_qsock_with)
  have h4: "CheckPureTCPAck (data data_seq1000) \<noteq> 1" by (simp add: data_seq1000_fields)
  have "in_backward_cc S = 0" by (simp add: S_def)
  then show ?thesis
    using non_pure_ack_discarded[OF h1 h2 h3 h4] h2 h3 h4 unfolding S_def by simp
qed

section \<open>The scheduler: the timeout of the readiness wait\<close>

lemma int64_id: "- (2 ^ 63) \<le> x \<Longrightarrow> x < 2 ^ 63 \<Longrightarrow> int64 x = x"
  by (simp add: int64_def signed_take_bit_int_eq_self)

lemma remain_usec_exact:
  assumes "\<bar>tv_sec a\<bar> < 2 ^ 40" "\<bar>tv_sec b\<bar> < 2 ^ 40" "\<bar>tv_usec a\<bar> < 2 ^ 40" "\<bar>tv_usec b\<bar> < 2 ^ 40"
  shows "remain_usec a b = (tv_sec a - tv_sec b) * 1000000 + (tv_usec a - tv_usec b)"
proof -
  have s: "\<bar>tv_sec a - tv_sec b\<bar> < 2 ^ 41" using assms by simp
  have u: "\<bar>tv_usec a - tv_usec b\<bar> < 2 ^ 41" using assms by simp
  have 1: "int64 (tv_sec a - tv_sec b) = tv_sec a - tv_sec b"
    using s by (intro int64_id) simp_all
  have m: "\<bar>(tv_sec a - tv_sec b) * 1000000\<bar> < 2 ^ 61"
  proof -
    define d where "d = tv_sec a - tv_sec b"
    have "- 2199023255552 < d" "d < 2199023255552"
      using s by (simp_all add: d_def)
    then have "- 2305843009213693952 < 1000000 * d \<and> 1000000 * d < 2305843009213693952"
      by linarith
    then have "\<bar>d * 1000000\<bar> < 2 ^ 61" by (simp add: abs_less_iff mult.commute)
    then show ?thesis by (simp only: d_def)
  qed
  have 2: "int64 ((tv_sec a - tv_sec b) * 1000000) = (tv_sec a - tv_sec b) * 1000000"
    using m by (intro int64_id) simp_all
  have 3: "int64 (tv_usec a - tv_usec b) = tv_usec a - tv_usec b"
    using u by (intro int64_id) simp_all
  have 4: "int64 ((tv_sec a - tv_sec b) * 1000000 + (tv_usec a - tv_usec b))
             = (tv_sec a - tv_sec b) * 1000000 + (tv_usec a - tv_usec b)"
    using m u by (intro int64_id) simp_all
  show ?thesis unfolding remain_usec_def 1 2 3 4 ..
qed

text \<open>
  Claim C8. In \<open>io_timeout\<close>, with each remaining time (deadline minus now, in
  microseconds) replaced by 0 if it is negative: if both deadlines are absent
  (\<open>tv_sec\<close> is \<open>-1\<close>) the first \<open>select\<close> gets no timeout; if only the deadline of
  \<open>Qsock\<close> is present (\<open>tv_sec \<ge> 0\<close>) the timeout is the clamped remaining time of
  \<open>Qsock\<close> and \<open>which\<close> is 2; if only that of \<open>Qtap\<close> is present, the clamped
  remaining time of \<open>Qtap\<close> and \<open>which\<close> is 1; if both are present, the smaller of the
  two clamped remaining times, and \<open>which\<close> is 1 if that of \<open>Qtap\<close> is strictly
  smaller and 2 otherwise. The remaining time is computed in 64-bit arithmetic and is
  \<open>(sec - now.sec) * 1000000 + (usec - now.usec)\<close> exactly for all times below
  \<open>2 ^ 40\<close> in absolute value.
\<close>

theorem io_timeout_decision:
  "(tv_sec qtap = - 1 \<and> tv_sec qsock = - 1 \<longrightarrow>
      select_arg (io_timeout_decide qtap qsock now t0) = Some Null_timeout) \<and>
   (tv_sec qtap = - 1 \<and> 0 \<le> tv_sec qsock \<longrightarrow>
      select_arg (io_timeout_decide qtap qsock now t0)
        = Some (Timeout \<lparr>tv_sec = 0, tv_usec = max 0 (remain_usec qsock now)\<rparr>) \<and>
      which (io_timeout_decide qtap qsock now t0) = Some 2) \<and>
   (tv_sec qsock = - 1 \<and> 0 \<le> tv_sec qtap \<longrightarrow>
      select_arg (io_timeout_decide qtap qsock now t0)
        = Some (Timeout \<lparr>tv_sec = 0, tv_usec = max 0 (remain_usec qtap now)\<rparr>) \<and>
      which (io_timeout_decide qtap qsock now t0) = Some 1) \<and>
   (0 \<le> tv_sec qtap \<and> 0 \<le> tv_sec qsock \<longrightarrow>
      select_arg (io_timeout_decide qtap qsock now t0)
        = Some (Timeout \<lparr>tv_sec = 0,
                         tv_usec = min (max 0 (remain_usec qtap now)) (max 0 (remain_usec qsock now))\<rparr>) \<and>
      which (io_timeout_decide qtap qsock now t0)
        = Some (if max 0 (remain_usec qtap now) < max 0 (remain_usec qsock now) then 1 else 2)) \<and>
   (\<bar>tv_sec qtap\<bar> < 2 ^ 40 \<and> \<bar>tv_usec qtap\<bar> < 2 ^ 40 \<and> \<bar>tv_sec qsock\<bar> < 2 ^ 40 \<and>
    \<bar>tv_usec qsock\<bar> < 2 ^ 40 \<and> \<bar>tv_sec now\<bar> < 2 ^ 40 \<and> \<bar>tv_usec now\<bar> < 2 ^ 40 \<longrightarrow>
      remain_usec qtap now = (tv_sec qtap - tv_sec now) * 1000000 + (tv_usec qtap - tv_usec now) \<and>
      remain_usec qsock now = (tv_sec qsock - tv_sec now) * 1000000 + (tv_usec qsock - tv_usec now))"
proof (intro conjI impI)
  assume "tv_sec qtap = - 1 \<and> tv_sec qsock = - 1"
  then show "select_arg (io_timeout_decide qtap qsock now t0) = Some Null_timeout"
    by (simp add: io_timeout_decide_def select_arg_def Let_def)
next
  assume a: "tv_sec qtap = - 1 \<and> 0 \<le> tv_sec qsock"
  then show "select_arg (io_timeout_decide qtap qsock now t0)
        = Some (Timeout \<lparr>tv_sec = 0, tv_usec = max 0 (remain_usec qsock now)\<rparr>)"
    by (simp add: io_timeout_decide_def select_arg_def Let_def max_def)
  from a show "which (io_timeout_decide qtap qsock now t0) = Some 2"
    by (simp add: io_timeout_decide_def Let_def)
next
  assume a: "tv_sec qsock = - 1 \<and> 0 \<le> tv_sec qtap"
  then show "select_arg (io_timeout_decide qtap qsock now t0)
        = Some (Timeout \<lparr>tv_sec = 0, tv_usec = max 0 (remain_usec qtap now)\<rparr>)"
    by (simp add: io_timeout_decide_def select_arg_def Let_def max_def)
  from a show "which (io_timeout_decide qtap qsock now t0) = Some 1"
    by (simp add: io_timeout_decide_def Let_def)
next
  assume a: "0 \<le> tv_sec qtap \<and> 0 \<le> tv_sec qsock"
  then show "select_arg (io_timeout_decide qtap qsock now t0)
        = Some (Timeout \<lparr>tv_sec = 0,
                         tv_usec = min (max 0 (remain_usec qtap now)) (max 0 (remain_usec qsock now))\<rparr>)"
    by (simp add: io_timeout_decide_def select_arg_def Let_def max_def min_def)
  from a show "which (io_timeout_decide qtap qsock now t0)
        = Some (if max 0 (remain_usec qtap now) < max 0 (remain_usec qsock now) then 1 else 2)"
    by (simp add: io_timeout_decide_def Let_def max_def)
next
  assume a: "\<bar>tv_sec qtap\<bar> < 2 ^ 40 \<and> \<bar>tv_usec qtap\<bar> < 2 ^ 40 \<and> \<bar>tv_sec qsock\<bar> < 2 ^ 40 \<and>
    \<bar>tv_usec qsock\<bar> < 2 ^ 40 \<and> \<bar>tv_sec now\<bar> < 2 ^ 40 \<and> \<bar>tv_usec now\<bar> < 2 ^ 40"
  then show "remain_usec qtap now = (tv_sec qtap - tv_sec now) * 1000000 + (tv_usec qtap - tv_usec now)"
    by (intro remain_usec_exact) simp_all
  from a show "remain_usec qsock now = (tv_sec qsock - tv_sec now) * 1000000 + (tv_usec qsock - tv_usec now)"
    by (intro remain_usec_exact) simp_all
qed

lemma remain_usec_examples:
  "remain_usec \<lparr>tv_sec = 100, tv_usec = 50000\<rparr> \<lparr>tv_sec = 100, tv_usec = 20000\<rparr> = 30000"
  "remain_usec \<lparr>tv_sec = 100, tv_usec = 70000\<rparr> \<lparr>tv_sec = 100, tv_usec = 20000\<rparr> = 50000"
  "remain_usec \<lparr>tv_sec = 99, tv_usec = 0\<rparr> \<lparr>tv_sec = 100, tv_usec = 20000\<rparr> = - 1020000"
  by (simp_all add: remain_usec_exact)

theorem io_timeout_decision_witness:
  "select_arg (io_timeout_decide \<lparr>tv_sec = - 1, tv_usec = 0\<rparr> \<lparr>tv_sec = - 1, tv_usec = 0\<rparr>
       \<lparr>tv_sec = 100, tv_usec = 20000\<rparr> \<lparr>tv_sec = 0, tv_usec = 0\<rparr>) = Some Null_timeout \<and>
   select_arg (io_timeout_decide \<lparr>tv_sec = - 1, tv_usec = 0\<rparr> \<lparr>tv_sec = 100, tv_usec = 70000\<rparr>
       \<lparr>tv_sec = 100, tv_usec = 20000\<rparr> \<lparr>tv_sec = 0, tv_usec = 0\<rparr>)
     = Some (Timeout \<lparr>tv_sec = 0, tv_usec = 50000\<rparr>) \<and>
   which (io_timeout_decide \<lparr>tv_sec = - 1, tv_usec = 0\<rparr> \<lparr>tv_sec = 100, tv_usec = 70000\<rparr>
       \<lparr>tv_sec = 100, tv_usec = 20000\<rparr> \<lparr>tv_sec = 0, tv_usec = 0\<rparr>) = Some 2 \<and>
   select_arg (io_timeout_decide \<lparr>tv_sec = 100, tv_usec = 50000\<rparr> \<lparr>tv_sec = - 1, tv_usec = 0\<rparr>
       \<lparr>tv_sec = 100, tv_usec = 20000\<rparr> \<lparr>tv_sec = 0, tv_usec = 0\<rparr>)
     = Some (Timeout \<lparr>tv_sec = 0, tv_usec = 30000\<rparr>) \<and>
   which (io_timeout_decide \<lparr>tv_sec = 100, tv_usec = 50000\<rparr> \<lparr>tv_sec = - 1, tv_usec = 0\<rparr>
       \<lparr>tv_sec = 100, tv_usec = 20000\<rparr> \<lparr>tv_sec = 0, tv_usec = 0\<rparr>) = Some 1 \<and>
   select_arg (io_timeout_decide \<lparr>tv_sec = 100, tv_usec = 50000\<rparr> \<lparr>tv_sec = 100, tv_usec = 70000\<rparr>
       \<lparr>tv_sec = 100, tv_usec = 20000\<rparr> \<lparr>tv_sec = 0, tv_usec = 0\<rparr>)
     = Some (Timeout \<lparr>tv_sec = 0, tv_usec = 30000\<rparr>) \<and>
   which (io_timeout_decide \<lparr>tv_sec = 100, tv_usec = 50000\<rparr> \<lparr>tv_sec = 100, tv_usec = 70000\<rparr>
       \<lparr>tv_sec = 100, tv_usec = 20000\<rparr> \<lparr>tv_sec = 0, tv_usec = 0\<rparr>) = Some 1 \<and>
   select_arg (io_timeout_decide \<lparr>tv_sec = 100, tv_usec = 70000\<rparr> \<lparr>tv_sec = 99, tv_usec = 0\<rparr>
       \<lparr>tv_sec = 100, tv_usec = 20000\<rparr> \<lparr>tv_sec = 0, tv_usec = 0\<rparr>)
     = Some (Timeout \<lparr>tv_sec = 0, tv_usec = 0\<rparr>) \<and>
   which (io_timeout_decide \<lparr>tv_sec = 100, tv_usec = 70000\<rparr> \<lparr>tv_sec = 99, tv_usec = 0\<rparr>
       \<lparr>tv_sec = 100, tv_usec = 20000\<rparr> \<lparr>tv_sec = 0, tv_usec = 0\<rparr>) = Some 2"
  using
    io_timeout_decision[of "\<lparr>tv_sec = - 1, tv_usec = 0\<rparr>" "\<lparr>tv_sec = - 1, tv_usec = 0\<rparr>"
      "\<lparr>tv_sec = 100, tv_usec = 20000\<rparr>" "\<lparr>tv_sec = 0, tv_usec = 0\<rparr>"]
    io_timeout_decision[of "\<lparr>tv_sec = - 1, tv_usec = 0\<rparr>" "\<lparr>tv_sec = 100, tv_usec = 70000\<rparr>"
      "\<lparr>tv_sec = 100, tv_usec = 20000\<rparr>" "\<lparr>tv_sec = 0, tv_usec = 0\<rparr>"]
    io_timeout_decision[of "\<lparr>tv_sec = 100, tv_usec = 50000\<rparr>" "\<lparr>tv_sec = - 1, tv_usec = 0\<rparr>"
      "\<lparr>tv_sec = 100, tv_usec = 20000\<rparr>" "\<lparr>tv_sec = 0, tv_usec = 0\<rparr>"]
    io_timeout_decision[of "\<lparr>tv_sec = 100, tv_usec = 50000\<rparr>" "\<lparr>tv_sec = 100, tv_usec = 70000\<rparr>"
      "\<lparr>tv_sec = 100, tv_usec = 20000\<rparr>" "\<lparr>tv_sec = 0, tv_usec = 0\<rparr>"]
    io_timeout_decision[of "\<lparr>tv_sec = 100, tv_usec = 70000\<rparr>" "\<lparr>tv_sec = 99, tv_usec = 0\<rparr>"
      "\<lparr>tv_sec = 100, tv_usec = 20000\<rparr>" "\<lparr>tv_sec = 0, tv_usec = 0\<rparr>"]
  by (simp add: remain_usec_examples)
end
